theory Spec2Isabelle
  imports Main "HOL-Library.AList" "HOL-Library.Monad_Syntax"
begin

section \<open>Values, errors and the outside world\<close>

text \<open>
  The model follows \<^verbatim>\<open>ftjoboffersapi.py\<close>. Python exceptions are values of
  \<open>error\<close>; a computation that may raise returns \<open>error + 'a\<close> with \<open>Inl\<close> for
  the exception.
\<close>

datatype error =
  TypeError | ValueError | IndexError | AttributeError | OverflowError | JSONDecodeError

text \<open>
  A value stored in the params dictionary. The format \<^verbatim>\<open>%Y-%m-%dT%H:%M:%SZ\<close> has
  second resolution, and the calendar arithmetic behind \<^verbatim>\<open>strptime\<close> and
  \<^verbatim>\<open>strftime\<close> belongs to the standard library: a text that the format matches is
  represented by \<open>PStamp n\<close>, where \<open>n\<close> is the number of whole seconds between
  0001-01-01T00:00:00 and the instant it denotes. \<open>PStr\<close> holds every other text,
  \<open>PInt\<close> an integer.
\<close>

datatype pval = PStr string | PInt int | PStamp int

text \<open>
  A Python \<^verbatim>\<open>dict\<close> keeps insertion order: assigning to an existing key keeps its
  place, assigning to a new key appends, which is what \<open>AList.update\<close> does;
  \<^verbatim>\<open>del d[k]\<close> is \<open>AList.delete\<close>.
\<close>

type_synonym params = "(string \<times> pval) list"

datatype json =
  JNull | JBool bool | JNum int | JStr string | JArr "json list" | JObj "(string \<times> json) list"

record response =
  status_code :: int
  headers :: "(string \<times> string) list"
  body :: "json option"

datatype request = Head params | Get params

text \<open>
  The environment: the remote server answers a request as a function of everything sent
  so far (the last element of the list is the request being answered), and \<open>now k\<close> is
  the \<open>k\<close>-th reading of \<^verbatim>\<open>datetime.now()\<close>, in microseconds since
  0001-01-01T00:00:00. The server answers every request: token acquisition, connection
  errors and the transport's own retries are outside the model.
\<close>

record env =
  server :: "request list \<Rightarrow> response"
  now :: "nat \<Rightarrow> int"

text \<open>
  The mutable state: \<open>heap\<close> holds the dictionary objects (a reference is an index into
  it), \<open>sent\<close> the requests issued so far, oldest first, \<open>reads\<close> the number of clock
  readings taken, \<open>errlog\<close> the status codes passed to \<^verbatim>\<open>logging.error\<close>. The last
  field is a record kept for the proofs only: \<open>splits\<close> lists the windows
  \<open>(start_date, end_date)\<close> that have been split so far, in microseconds, oldest first.
\<close>

record world =
  heap :: "params list"
  sent :: "request list"
  reads :: nat
  errlog :: "int list"
  splits :: "(int \<times> int) list"

text \<open>
  What a generator has done when it stops: the chunks it yielded, in order, each paired
  with the query that fetched it, the exception that ended it (if any), and the state it
  left behind.
\<close>

record run =
  yielded :: "(params \<times> json) list"
  outcome :: "error option"
  final :: world

section \<open>Library functions the code calls\<close>

fun split_on :: "char \<Rightarrow> string \<Rightarrow> string list" where
  "split_on c [] = [[]]"
| "split_on c (x # xs) =
     (if x = c then [] # split_on c xs
      else (case split_on c xs of [] \<Rightarrow> [[x]] | y # ys \<Rightarrow> (x # y) # ys))"

definition is_space :: "char \<Rightarrow> bool" where
  "is_space c = (of_char c \<in> set [9, 10, 11, 12, 13, 28, 29, 30, 31, 32, 133, 160 :: nat])"

definition strip :: "string \<Rightarrow> string" where
  "strip s = rev (dropWhile is_space (rev (dropWhile is_space s)))"

definition is_digit :: "char \<Rightarrow> bool" where
  "is_digit c = (48 \<le> (of_char c :: nat) \<and> (of_char c :: nat) \<le> 57)"

definition digit_val :: "char \<Rightarrow> int" where
  "digit_val c = int (of_char c) - 48"

text \<open>Decimal digits after the first one; single underscores may separate digits.\<close>

fun py_digits :: "int \<Rightarrow> string \<Rightarrow> int option" where
  "py_digits acc [] = Some acc"
| "py_digits acc [c] = (if is_digit c then Some (acc * 10 + digit_val c) else None)"
| "py_digits acc (c # d # cs) =
     (if c = CHR ''_'' then
        (if is_digit d then py_digits (acc * 10 + digit_val d) cs else None)
      else if is_digit c then py_digits (acc * 10 + digit_val c) (d # cs)
      else None)"

text \<open>\<^verbatim>\<open>int(s)\<close> for a text \<open>s\<close> (the interpreter's limit on the number of digits is
  not modelled).\<close>

definition py_int_of_string :: "string \<Rightarrow> error + int" where
  "py_int_of_string s =
     (let t = strip s;
          neg = (case t of [] \<Rightarrow> False | c # _ \<Rightarrow> c = CHR ''-'');
          u = (case t of [] \<Rightarrow> [] | c # cs \<Rightarrow> if c = CHR ''-'' \<or> c = CHR ''+'' then cs else t)
      in case u of
           [] \<Rightarrow> Inl ValueError
         | c # cs \<Rightarrow>
             if is_digit c then
               (case py_digits (digit_val c) cs of
                  None \<Rightarrow> Inl ValueError
                | Some n \<Rightarrow> Inr (if neg then - n else n))
             else Inl ValueError)"

fun py_int :: "pval \<Rightarrow> error + int" where
  "py_int (PInt i) = Inr i"
| "py_int (PStr s) = py_int_of_string s"
| "py_int (PStamp n) = Inl ValueError"

text \<open>Datetimes are microseconds since 0001-01-01T00:00:00; the last representable
  one is 9999-12-31T23:59:59.999999.\<close>

definition MAX_US :: int where
  "MAX_US = 3652059 * 86400 * 1000000"

definition dt_check :: "int \<Rightarrow> error + int" where
  "dt_check t = (if 0 \<le> t \<and> t < MAX_US then Inr t else Inl OverflowError)"

definition timedelta_days :: "int \<Rightarrow> error + int" where
  "timedelta_days d = (if \<bar>d\<bar> \<le> 999999999 then Inr (d * 86400000000) else Inl OverflowError)"

text \<open>Division of a \<^verbatim>\<open>timedelta\<close> by 2 rounds the microseconds half to even.\<close>

definition half_even :: "int \<Rightarrow> int" where
  "half_even td = (let q = td div 2; r = td mod 2 in if r = 1 \<and> q mod 2 = 1 then q + 1 else q)"

fun strptime :: "pval \<Rightarrow> error + int" where
  "strptime (PStamp n) =
     (if 0 \<le> n \<and> n * 1000000 < MAX_US then Inr (n * 1000000) else Inl ValueError)"
| "strptime (PStr s) = Inl ValueError"
| "strptime (PInt i) = Inl TypeError"

definition strftime :: "int \<Rightarrow> pval" where
  "strftime t = PStamp (t div 1000000)"

text \<open>Iterating over a chunk, as the comprehension of \<^verbatim>\<open>get_all_job_offers\<close> does.\<close>

fun py_iter :: "json \<Rightarrow> error + json list" where
  "py_iter (JArr xs) = Inr xs"
| "py_iter (JObj kvs) = Inr (map (\<lambda>kv. JStr (fst kv)) kvs)"
| "py_iter (JStr s) = Inr (map (\<lambda>c. JStr [c]) s)"
| "py_iter JNull = Inl TypeError"
| "py_iter (JBool b) = Inl TypeError"
| "py_iter (JNum n) = Inl TypeError"

section \<open>Requests\<close>

definition send :: "env \<Rightarrow> request \<Rightarrow> world \<Rightarrow> response \<times> world" where
  "send E rq w = (let h = sent w @ [rq] in (server E h, w\<lparr>sent := h\<rparr>))"

text \<open>\<^verbatim>\<open>session_get\<close>: one GET, sent again once when the answer is 403.\<close>

definition session_get :: "env \<Rightarrow> params \<Rightarrow> world \<Rightarrow> response \<times> world" where
  "session_get E q w =
     (let (r, w1) = send E (Get q) w
      in if status_code r = 403 then send E (Get q) w1 else (r, w1))"

text \<open>\<^verbatim>\<open>int(r.headers.get("Content-Range").split("/")[1].strip())\<close>\<close>

definition content_range_total :: "response \<Rightarrow> error + int" where
  "content_range_total r =
     (case map_of (headers r) ''Content-Range'' of
        None \<Rightarrow> Inl AttributeError
      | Some v \<Rightarrow>
          (case split_on CHR ''/'' v of
             _ # b # _ \<Rightarrow> py_int_of_string (strip b)
           | _ \<Rightarrow> Inl IndexError))"

text \<open>\<^verbatim>\<open>int(response.headers.get("Accept-Range"))\<close>\<close>

definition accept_range :: "response \<Rightarrow> error + int" where
  "accept_range r =
     (case map_of (headers r) ''Accept-Range'' of
        None \<Rightarrow> Inl TypeError
      | Some v \<Rightarrow> py_int_of_string v)"

text \<open>The reading of the probe's answer in \<^verbatim>\<open>get_nb_offers\<close>: \<open>Inr None\<close> is Python's
  \<^verbatim>\<open>None\<close>.\<close>

definition count_of :: "response \<Rightarrow> error + int option" where
  "count_of r =
     (case map_of (headers r) ''Content-Range'' of
        None \<Rightarrow> Inr None
      | Some _ \<Rightarrow>
          (case content_range_total r of
             Inl e \<Rightarrow> Inl e
           | Inr n \<Rightarrow> Inr (Some n)))"

definition get_nb_offers :: "env \<Rightarrow> nat \<Rightarrow> world \<Rightarrow> (error + int option) \<times> world" where
  "get_nb_offers E p w =
     (let (r, w1) = send E (Head (heap w ! p)) w in (count_of r, w1))"

definition MAX_RANGE :: int where
  "MAX_RANGE = 3000"

text \<open>\<^verbatim>\<open>nb_offers >= self.MAX_RANGE\<close>: comparing \<^verbatim>\<open>None\<close> with an integer raises.\<close>

fun py_ge :: "int option \<Rightarrow> int \<Rightarrow> error + bool" where
  "py_ge None m = Inl TypeError"
| "py_ge (Some n) m = Inr (m \<le> n)"

section \<open>Splitting a window\<close>

definition read_clock :: "env \<Rightarrow> world \<Rightarrow> int \<times> world" where
  "read_clock E w = (now E (reads w), w\<lparr>reads := Suc (reads w)\<rparr>)"

definition start_date_of :: "env \<Rightarrow> params \<Rightarrow> int \<Rightarrow> world \<Rightarrow> (error + int) \<times> world" where
  "start_date_of E q maxCreationDays w =
     (case map_of q ''minCreationDate'' of
        Some v \<Rightarrow> (strptime v, w)
      | None \<Rightarrow>
          (let (t, w1) = read_clock E w
           in (case timedelta_days maxCreationDays of
                 Inl e \<Rightarrow> (Inl e, w1)
               | Inr td \<Rightarrow> (dt_check (t - td), w1))))"

definition end_date_of :: "env \<Rightarrow> params \<Rightarrow> world \<Rightarrow> (error + int) \<times> world" where
  "end_date_of E q w =
     (case map_of q ''maxCreationDate'' of
        Some v \<Rightarrow> (strptime v, w)
      | None \<Rightarrow> (let (t, w1) = read_clock E w in (Inr t, w1)))"

text \<open>Lines 179 to 186: \<^verbatim>\<open>publieeDepuis\<close> raises the start date, and is then deleted from
  the dictionary the caller passed.\<close>

definition fold_published :: "env \<Rightarrow> nat \<Rightarrow> int \<Rightarrow> world \<Rightarrow> (error + int) \<times> world" where
  "fold_published E p start_date w =
     (case map_of (heap w ! p) ''publieeDepuis'' of
        None \<Rightarrow> (Inr start_date, w)
      | Some v \<Rightarrow>
          (case py_int v of
             Inl e \<Rightarrow> (Inl e, w)
           | Inr published_for_param \<Rightarrow>
               (let (t, w1) = read_clock E w
                in (case timedelta_days published_for_param of
                      Inl e \<Rightarrow> (Inl e, w1)
                    | Inr td \<Rightarrow>
                        (case dt_check (t - td) of
                           Inl e \<Rightarrow> (Inl e, w1)
                         | Inr published_for_date \<Rightarrow>
                             if start_date < published_for_date then
                               (Inr published_for_date,
                                w1\<lparr>heap := (heap w1)
                                    [p := AList.delete ''publieeDepuis'' (heap w1 ! p)]\<rparr>)
                             else (Inr start_date, w1))))))"

text \<open>Lines 189 to 194: the pivot and the two copies. \<^verbatim>\<open>params.copy()\<close> allocates a
  new dictionary with the same entries.\<close>

definition make_children :: "nat \<Rightarrow> int \<Rightarrow> int \<Rightarrow> world \<Rightarrow> (error + nat \<times> nat) \<times> world" where
  "make_children p start_date end_date w =
     (case dt_check (start_date + half_even (end_date - start_date)) of
        Inl e \<Rightarrow> (Inl e, w)
      | Inr mid_date \<Rightarrow>
          (let q = heap w ! p;
               p1 = length (heap w);
               p2 = Suc p1;
               q1 = AList.update ''maxCreationDate'' (strftime mid_date)
                      (AList.update ''minCreationDate'' (strftime start_date) q)
           in (case dt_check (mid_date + 1000000) of
                 Inl e \<Rightarrow> (Inl e, w\<lparr>heap := heap w @ [q1, q]\<rparr>)
               | Inr next_date \<Rightarrow>
                   (let q2 = AList.update ''maxCreationDate'' (strftime end_date)
                               (AList.update ''minCreationDate'' (strftime next_date) q)
                    in (Inr (p1, p2), w\<lparr>heap := heap w @ [q1, q2]\<rparr>)))))"

text \<open>Lines 166 to 186: the effective window of the call.\<close>

definition resolve_window ::
  "env \<Rightarrow> nat \<Rightarrow> int \<Rightarrow> world \<Rightarrow> (error + int \<times> int) \<times> world" where
  "resolve_window E p maxCreationDays w =
     (case start_date_of E (heap w ! p) maxCreationDays w of
        (Inl e, w1) \<Rightarrow> (Inl e, w1)
      | (Inr start_date, w1) \<Rightarrow>
          (case end_date_of E (heap w1 ! p) w1 of
             (Inl e, w2) \<Rightarrow> (Inl e, w2)
           | (Inr end_date, w2) \<Rightarrow>
               (case fold_published E p start_date w2 of
                  (Inl e, w3) \<Rightarrow> (Inl e, w3)
                | (Inr start_date', w3) \<Rightarrow> (Inr (start_date', end_date), w3))))"

definition note_split :: "int \<Rightarrow> int \<Rightarrow> world \<Rightarrow> world" where
  "note_split start_date end_date w = w\<lparr>splits := splits w @ [(start_date, end_date)]\<rparr>"

text \<open>Lines 166 to 194 together; the window that is about to be split is noted.\<close>

definition split_params :: "env \<Rightarrow> nat \<Rightarrow> int \<Rightarrow> world \<Rightarrow> (error + nat \<times> nat) \<times> world" where
  "split_params E p maxCreationDays w =
     (case resolve_window E p maxCreationDays w of
        (Inl e, w1) \<Rightarrow> (Inl e, w1)
      | (Inr (start_date, end_date), w1) \<Rightarrow>
          make_children p start_date end_date (note_split start_date end_date w1))"

section \<open>Walking one window\<close>

text \<open>\<^verbatim>\<open>response.json()["resultats" if "resultats" in response.json().keys() else []]\<close>:
  the conditional is the subscript, so without the key the dictionary is indexed by a
  list, which is unhashable.\<close>

definition chunk_of :: "response \<Rightarrow> error + json" where
  "chunk_of r =
     (case body r of
        None \<Rightarrow> Inl JSONDecodeError
      | Some (JObj kvs) \<Rightarrow>
          (case map_of kvs ''resultats'' of
             Some v \<Rightarrow> Inr v
           | None \<Rightarrow> Inl TypeError)
      | Some _ \<Rightarrow> Inl AttributeError)"

definition stopped :: "error option \<Rightarrow> world \<Rightarrow> run" where
  "stopped out w = \<lparr>yielded = [], outcome = out, final = w\<rparr>"

definition after_yield :: "params \<times> json \<Rightarrow> run \<Rightarrow> run" where
  "after_yield c r = r\<lparr>yielded := c # yielded r\<rparr>"

definition log_error :: "int \<Rightarrow> world \<Rightarrow> world" where
  "log_error code w = w\<lparr>errlog := errlog w @ [code]\<rparr>"

text \<open>Line 217: the range accounting of one iteration.\<close>

definition advance :: "int \<Rightarrow> int \<Rightarrow> int \<Rightarrow> int" where
  "advance rng rng_d rng_end = (if rng_d + rng \<le> rng_end then rng_d + rng else rng_end)"

text \<open>The \<^verbatim>\<open>while\<close> loop of lines 215 to 226 (\<^verbatim>\<open>range_p\<close> is written and never read).
  The loop need not end: the value \<open>None\<close> stands for a walk that runs forever.\<close>

partial_function (option) paging_loop ::
  "env \<Rightarrow> nat \<Rightarrow> int \<Rightarrow> int \<Rightarrow> int \<Rightarrow> world \<Rightarrow> run option" where
  "paging_loop E p rng rng_d rng_end w =
     (if rng_d < rng_end then
        (let rng_d' = advance rng rng_d rng_end;
             q = heap w ! p;
             rw = session_get E q w
         in if status_code (fst rw) \<noteq> 200 \<and> status_code (fst rw) \<noteq> 206 then
              paging_loop E p rng rng_d' rng_end (log_error (status_code (fst rw)) (snd rw))
            else
              (case chunk_of (fst rw) of
                 Inl e \<Rightarrow> Some (stopped (Some e) (snd rw))
               | Inr c \<Rightarrow>
                   do {
                     r \<leftarrow> paging_loop E p rng rng_d' rng_end (snd rw);
                     Some (after_yield (q, c) r)
                   }))
      else Some (stopped None w))"

declare paging_loop.simps [code]

text \<open>The base case of lines 201 to 230.\<close>

definition walk_window :: "env \<Rightarrow> nat \<Rightarrow> world \<Rightarrow> run option" where
  "walk_window E p w =
     (let q = heap w ! p;
          rw = session_get E q w;
          r = fst rw;
          w1 = snd rw
      in if status_code r = 200 then
           (case chunk_of r of
              Inl e \<Rightarrow> Some (stopped (Some e) w1)
            | Inr c \<Rightarrow> Some (after_yield (q, c) (stopped None w1)))
         else if status_code r = 206 then
           (case chunk_of r of
              Inl e \<Rightarrow> Some (stopped (Some e) w1)
            | Inr c \<Rightarrow>
                (case content_range_total r of
                   Inl e \<Rightarrow> Some (after_yield (q, c) (stopped (Some e) w1))
                 | Inr rng_end \<Rightarrow>
                     (case accept_range r of
                        Inl e \<Rightarrow> Some (after_yield (q, c) (stopped (Some e) w1))
                      | Inr rng \<Rightarrow>
                          (case paging_loop E p rng (rng - 1) rng_end w1 of
                             None \<Rightarrow> None
                           | Some r' \<Rightarrow> Some (after_yield (q, c) r')))))
         else Some (stopped None (log_error (status_code r) w1)))"

section \<open>The traversal\<close>

text \<open>\<^verbatim>\<open>yield from a; yield from b\<close>: the second generator starts only when the first
  one is exhausted, and an exception of the first ends both.\<close>

definition then_run :: "run \<Rightarrow> run \<Rightarrow> run" where
  "then_run r1 r2 = r2\<lparr>yielded := yielded r1 @ yielded r2\<rparr>"

partial_function (option) get_lazy_job_offers ::
  "env \<Rightarrow> nat \<Rightarrow> int \<Rightarrow> world \<Rightarrow> run option" where
  "get_lazy_job_offers E p maxCreationDays w =
     (let nw = get_nb_offers E p w
      in case fst nw of
           Inl e \<Rightarrow> Some (stopped (Some e) (snd nw))
         | Inr nb_offers \<Rightarrow>
             (case py_ge nb_offers MAX_RANGE of
                Inl e \<Rightarrow> Some (stopped (Some e) (snd nw))
              | Inr ge \<Rightarrow>
                  if ge then
                    (let sw = split_params E p maxCreationDays (snd nw)
                     in case fst sw of
                          Inl e \<Rightarrow> Some (stopped (Some e) (snd sw))
                        | Inr (p1, p2) \<Rightarrow>
                            do {
                              r1 \<leftarrow> get_lazy_job_offers E p1 365 (snd sw);
                              if outcome r1 \<noteq> None then Some r1
                              else do {
                                r2 \<leftarrow> get_lazy_job_offers E p2 365 (final r1);
                                Some (then_run r1 r2)
                              }
                            })
                  else walk_window E p (snd nw)))"

declare get_lazy_job_offers.simps [code]

text \<open>The comprehension of \<^verbatim>\<open>get_all_job_offers\<close> iterates over each chunk as it
  arrives, so a chunk that cannot be iterated raises before a later exception of the
  generator is seen.\<close>

fun flatten :: "json list \<Rightarrow> error option \<Rightarrow> error + json list" where
  "flatten [] out = (case out of None \<Rightarrow> Inr [] | Some e \<Rightarrow> Inl e)"
| "flatten (c # cs) out =
     (case py_iter c of
        Inl e \<Rightarrow> Inl e
      | Inr xs \<Rightarrow> (case flatten cs out of Inl e \<Rightarrow> Inl e | Inr ys \<Rightarrow> Inr (xs @ ys)))"

definition get_all_job_offers ::
  "env \<Rightarrow> nat \<Rightarrow> int \<Rightarrow> world \<Rightarrow> (error + json list) option" where
  "get_all_job_offers E p maxCreationDays w =
     map_option (\<lambda>r. flatten (map snd (yielded r)) (outcome r))
       (get_lazy_job_offers E p maxCreationDays w)"

text \<open>One unfolding of the traversal, with the recursive calls as a parameter: the body
  of \<^verbatim>\<open>get_lazy_job_offers\<close> read as a function of what its recursive calls return.\<close>

definition lazy_body ::
  "(env \<Rightarrow> nat \<Rightarrow> int \<Rightarrow> world \<Rightarrow> run option) \<Rightarrow>
     env \<Rightarrow> nat \<Rightarrow> int \<Rightarrow> world \<Rightarrow> run option" where
  "lazy_body f E p maxCreationDays w =
     (let nw = get_nb_offers E p w
      in case fst nw of
           Inl e \<Rightarrow> Some (stopped (Some e) (snd nw))
         | Inr nb_offers \<Rightarrow>
             (case py_ge nb_offers MAX_RANGE of
                Inl e \<Rightarrow> Some (stopped (Some e) (snd nw))
              | Inr ge \<Rightarrow>
                  if ge then
                    (let sw = split_params E p maxCreationDays (snd nw)
                     in case fst sw of
                          Inl e \<Rightarrow> Some (stopped (Some e) (snd sw))
                        | Inr (p1, p2) \<Rightarrow>
                            do {
                              r1 \<leftarrow> f E p1 365 (snd sw);
                              if outcome r1 \<noteq> None then Some r1
                              else do {
                                r2 \<leftarrow> f E p2 365 (final r1);
                                Some (then_run r1 r2)
                              }
                            })
                  else walk_window E p (snd nw)))"

text \<open>The number of passes of the \<^verbatim>\<open>while\<close> loop for a positive page size, from the
  accounting alone: the loop runs while \<open>rng_d < rng_end\<close> and each pass advances
  \<open>rng_d\<close>.\<close>

function iterations :: "int \<Rightarrow> int \<Rightarrow> int \<Rightarrow> nat" where
  "iterations rng rng_d rng_end =
     (if rng_d < rng_end \<and> 0 < rng
      then Suc (iterations rng (advance rng rng_d rng_end) rng_end)
      else 0)"
  by pat_completeness auto
termination
  by (relation "measure (\<lambda>(rng, rng_d, rng_end). nat (rng_end - rng_d))")
     (auto simp: advance_def)

declare iterations.simps [simp del]

section \<open>Observations\<close>

text \<open>What a consumer of the generator sees: the chunks in order, and the exception
  that ended the stream, if any.\<close>

definition observed :: "run option \<Rightarrow> (json list \<times> error option) option" where
  "observed ro = map_option (\<lambda>r. (map snd (yielded r), outcome r)) ro"

text \<open>The window a query carries, in whole seconds, when both bounds are timestamps.\<close>

definition window_of :: "params \<Rightarrow> (int \<times> int) option" where
  "window_of q =
     (case map_of q ''minCreationDate'' of
        Some (PStamp a) \<Rightarrow>
          (case map_of q ''maxCreationDate'' of
             Some (PStamp b) \<Rightarrow> Some (a, b)
           | _ \<Rightarrow> None)
      | _ \<Rightarrow> None)"

definition is_get :: "request \<Rightarrow> bool" where
  "is_get rq = (case rq of Get _ \<Rightarrow> True | Head _ \<Rightarrow> False)"

definition fetches :: "world \<Rightarrow> nat" where
  "fetches w = length (filter is_get (sent w))"

text \<open>The windows split during a run that started in the state \<open>w\<close>.\<close>

definition split_during :: "world \<Rightarrow> run \<Rightarrow> (int \<times> int) list" where
  "split_during w r = drop (length (splits w)) (splits (final r))"

text \<open>The start of the window of the query that fetched a chunk.\<close>

definition window_start :: "params \<times> json \<Rightarrow> int" where
  "window_start t = (case window_of (fst t) of Some (a, b) \<Rightarrow> a | None \<Rightarrow> 0)"

text \<open>How a run may change the dictionaries: the one at \<open>p\<close> may lose the key
  \<^verbatim>\<open>publieeDepuis\<close>, every other one is kept, and new ones are added at the end.\<close>

definition touched :: "nat \<Rightarrow> params list \<Rightarrow> params list \<Rightarrow> bool" where
  "touched p h h' =
     (h' = h \<or> (p < length h \<and> h' = h[p := AList.delete ''publieeDepuis'' (h ! p)]))"

definition framed :: "nat \<Rightarrow> params list \<Rightarrow> params list \<Rightarrow> bool" where
  "framed p h h' = (\<exists>h0 ys. touched p h h0 \<and> h' = h0 @ ys)"

text \<open>The fetches among the requests \<open>rqs\<close>, sent after the history \<open>h\<close>, that the
  server answers with status 200 or 206.\<close>

fun successes :: "env \<Rightarrow> request list \<Rightarrow> request list \<Rightarrow> nat" where
  "successes E h [] = 0"
| "successes E h (rq # rqs) =
     (if status_code (server E (h @ [rq])) = 200 \<or> status_code (server E (h @ [rq])) = 206
      then 1 else 0)
     + successes E (h @ [rq]) rqs"

text \<open>A server that never answers a GET with 403, and whose pages of status 200 or 206
  have a body with the \<^verbatim>\<open>resultats\<close> field.\<close>

definition dependable :: "env \<Rightarrow> bool" where
  "dependable E =
     (\<forall>h q. status_code (server E (h @ [Get q])) \<noteq> 403
        \<and> (status_code (server E (h @ [Get q])) = 200
             \<or> status_code (server E (h @ [Get q])) = 206
           \<longrightarrow> (\<exists>c. chunk_of (server E (h @ [Get q])) = Inr c)))"

text \<open>Every page of status 200 or 206 has a body with the \<^verbatim>\<open>resultats\<close> field, and
  every page of status 206 has range headers that can be read.\<close>

definition well_formed_pages :: "env \<Rightarrow> bool" where
  "well_formed_pages E =
     (\<forall>h q.
        (status_code (server E (h @ [Get q])) = 200
           \<or> status_code (server E (h @ [Get q])) = 206
         \<longrightarrow> (\<exists>c. chunk_of (server E (h @ [Get q])) = Inr c))
      \<and> (status_code (server E (h @ [Get q])) = 206
         \<longrightarrow> (\<exists>n. content_range_total (server E (h @ [Get q])) = Inr n)
           \<and> (\<exists>n. accept_range (server E (h @ [Get q])) = Inr n)))"

text \<open>A split strictly reduces the duration of a window of whole seconds: both children
  are shorter than \<open>[s, e]\<close>.\<close>

definition split_reduces :: "int \<Rightarrow> int \<Rightarrow> bool" where
  "split_reduces s e =
     (let mid = s + (e - s) div 2
      in mid - s < e - s \<and> e - (mid + 1) < e - s)"

text \<open>A count oracle under which every split strictly reduces the window: a probe for a
  window answers 3000 or more only when splitting that window reduces it.\<close>

definition shrinking_counts :: "env \<Rightarrow> bool" where
  "shrinking_counts E =
     (\<forall>h q s e n.
        window_of q = Some (s, e)
        \<and> count_of (server E (h @ [Head q])) = Inr (Some n)
        \<and> MAX_RANGE \<le> n
        \<longrightarrow> split_reduces s e)"

text \<open>Every page of status 206 grants a positive page size.\<close>

definition positive_pages :: "env \<Rightarrow> bool" where
  "positive_pages E =
     (\<forall>h n. status_code (server E h) = 206 \<and> accept_range (server E h) = Inr n
        \<longrightarrow> 0 < n)"

section \<open>Simulated servers\<close>

definition reply :: "int \<Rightarrow> (string \<times> string) list \<Rightarrow> json option \<Rightarrow> response" where
  "reply code hs b = \<lparr>status_code = code, headers = hs, body = b\<rparr>"

definition start_world :: "params \<Rightarrow> world" where
  "start_world q = \<lparr>heap = [q], sent = [], reads = 0, errlog = [], splits = []\<rparr>"

text \<open>A clock that starts at 2022-09-28T22:13:20 and gains a microsecond per reading.\<close>

definition ticking :: "nat \<Rightarrow> int" where
  "ticking k = 63800000000000000 + int k"

text \<open>A server whose result pages have no \<^verbatim>\<open>resultats\<close> field.\<close>

definition no_results_server :: "int \<Rightarrow> request list \<Rightarrow> response" where
  "no_results_server code h =
     (case last h of
        Head q \<Rightarrow> reply 206 [(''Content-Range'', ''offres 0-0/12'')] None
      | Get q \<Rightarrow>
          reply code [(''Content-Range'', ''offres 0-11/12''), (''Accept-Range'', ''150'')]
            (Some (JObj [(''filtresPossibles'', JArr [])])))"

definition no_results_env :: "int \<Rightarrow> env" where
  "no_results_env code = \<lparr>server = no_results_server code, now = ticking\<rparr>"

text \<open>A server whose answer to the count probe has no \<^verbatim>\<open>Content-Range\<close> header.\<close>

definition no_range_server :: "request list \<Rightarrow> response" where
  "no_range_server h =
     (case last h of
        Head q \<Rightarrow> reply 200 [] None
      | Get q \<Rightarrow> reply 200 [] (Some (JObj [(''resultats'', JArr [])])))"

definition no_range_env :: env where
  "no_range_env = \<lparr>server = no_range_server, now = ticking\<rparr>"

text \<open>A server that reports 3500 offers to the first probe and 1200 to every later one,
  and delivers each window in one page of status 200 whose records carry the window's
  start.\<close>

definition split_once_server :: "request list \<Rightarrow> response" where
  "split_once_server h =
     (case last h of
        Head q \<Rightarrow>
          reply 206
            [(''Content-Range'',
              if length h = 1 then ''offres 0-0/3500'' else ''offres 0-0/1200'')]
            None
      | Get q \<Rightarrow>
          reply 200 []
            (Some (JObj [(''resultats'',
               JArr [JStr ''offre'',
                     (case map_of q ''minCreationDate'' of
                        Some (PStamp n) \<Rightarrow> JNum n
                      | _ \<Rightarrow> JNull)])])))"

definition split_once_env :: env where
  "split_once_env = \<lparr>server = split_once_server, now = ticking\<rparr>"

text \<open>A server that reports 3500 offers to the first two probes and 1200 to every later
  one, with the same pages.\<close>

definition split_twice_server :: "request list \<Rightarrow> response" where
  "split_twice_server h =
     (case last h of
        Head q \<Rightarrow>
          reply 206
            [(''Content-Range'',
              if length h \<le> 2 then ''offres 0-0/3500'' else ''offres 0-0/1200'')]
            None
      | Get q \<Rightarrow> split_once_server h)"

text \<open>A clock that gains twelve seconds per reading.\<close>

definition striding :: "nat \<Rightarrow> int" where
  "striding k = 63800000000000000 + int k * 12000000"

definition striding_env :: env where
  "striding_env = \<lparr>server = split_twice_server, now = striding\<rparr>"

text \<open>A server like the first one, whose pages have status 206 and no
  \<^verbatim>\<open>Accept-Range\<close> header.\<close>

definition no_accept_server :: "request list \<Rightarrow> response" where
  "no_accept_server h =
     (case last h of
        Head q \<Rightarrow> split_once_server h
      | Get q \<Rightarrow>
          reply 206 [(''Content-Range'', ''offres 0-149/1200'')]
            (Some (JObj [(''resultats'', JArr [JStr ''offre''])])))"

definition no_accept_env :: env where
  "no_accept_env = \<lparr>server = no_accept_server, now = ticking\<rparr>"

text \<open>A server that reports 320 offers and delivers them in pages of 100, all of status
  206.\<close>

definition paged_server :: "request list \<Rightarrow> response" where
  "paged_server h =
     (case last h of
        Head q \<Rightarrow> reply 206 [(''Content-Range'', ''offres 0-0/320'')] None
      | Get q \<Rightarrow>
          reply 206 [(''Content-Range'', ''offres 0-99/320''), (''Accept-Range'', ''100'')]
            (Some (JObj [(''resultats'', JArr [JNum (int (length h))])])))"

definition paged_env :: env where
  "paged_env = \<lparr>server = paged_server, now = ticking\<rparr>"

text \<open>The same server, except that its third answer (the second page) has status 500.\<close>

definition flaky_server :: "request list \<Rightarrow> response" where
  "flaky_server h = (if length h = 3 then reply 500 [] None else paged_server h)"

definition flaky_env :: env where
  "flaky_env = \<lparr>server = flaky_server, now = ticking\<rparr>"

text \<open>A server that reports 5 offers and grants pages of size 0.\<close>

definition zero_page_server :: "request list \<Rightarrow> response" where
  "zero_page_server h =
     (case last h of
        Head q \<Rightarrow> reply 206 [(''Content-Range'', ''offres 0-0/5'')] None
      | Get q \<Rightarrow>
          reply 206 [(''Content-Range'', ''offres 0-0/5''), (''Accept-Range'', ''0'')]
            (Some (JObj [(''resultats'', JArr [])])))"

definition zero_page_env :: env where
  "zero_page_env = \<lparr>server = zero_page_server, now = ticking\<rparr>"

text \<open>A server that reports 3500 offers for a window of three seconds or more (and for a
  query without a window) and 1200 for a shorter one, and delivers each window in one
  page whose only record is the window's start.\<close>

definition dense_server :: "request list \<Rightarrow> response" where
  "dense_server h =
     (case last h of
        Head q \<Rightarrow>
          reply 206
            [(''Content-Range'',
              (case window_of q of
                 Some (s, e) \<Rightarrow> if 3 \<le> e - s then ''offres 0-0/3500'' else ''offres 0-0/1200''
               | None \<Rightarrow> ''offres 0-0/3500''))]
            None
      | Get q \<Rightarrow>
          reply 200 []
            (Some (JObj [(''resultats'',
               JArr [(case map_of q ''minCreationDate'' of
                        Some (PStamp n) \<Rightarrow> JNum n
                      | _ \<Rightarrow> JNull)])])))"

definition dense_env :: env where
  "dense_env = \<lparr>server = dense_server, now = ticking\<rparr>"

text \<open>The queries used as inputs. The timestamps are seconds since 0001-01-01T00:00:00:
  63800000000 is the start of the clock, 63799136000 is ten days earlier.\<close>

definition ten_seconds :: params where
  "ten_seconds = [(''departement'', PStr ''42''),
                  (''minCreationDate'', PStamp 63800000000),
                  (''maxCreationDate'', PStamp 63800000010)]"

definition recent_42 :: params where
  "recent_42 = [(''departement'', PStr ''42''), (''publieeDepuis'', PStr ''10'')]"

definition dept_42 :: params where
  "dept_42 = [(''departement'', PStr ''42'')]"

definition window_42 :: params where
  "window_42 = [(''departement'', PStr ''42''),
                (''minCreationDate'', PStamp 63799136000),
                (''maxCreationDate'', PStamp 63800000000)]"

definition month_window_42 :: params where
  "month_window_42 = [(''departement'', PStr ''42''),
                (''publieeDepuis'', PStr ''30''),
                (''minCreationDate'', PStamp 63799136000)]"

definition key_of_request :: "string \<Rightarrow> request \<Rightarrow> pval option" where
  "key_of_request k rq = (case rq of Head q \<Rightarrow> map_of q k | Get q \<Rightarrow> map_of q k)"

text \<open>Sixteen seconds that start exactly ten days before the first reading of the
  clock, with \<^verbatim>\<open>publieeDepuis\<close> of ten days.\<close>

definition sixteen_seconds :: params where
  "sixteen_seconds = [(''departement'', PStr ''42''),
                      (''publieeDepuis'', PStr ''10''),
                      (''minCreationDate'', PStamp 63799136000),
                      (''maxCreationDate'', PStamp 63799136016)]"

text \<open>The window of the example at the end of the source file: its start is a year after
  its end.\<close>

definition inverted_42 :: params where
  "inverted_42 = [(''departement'', PStr ''42''),
                  (''maxCreationDate'', PStamp 63775685562),
                  (''minCreationDate'', PStamp 63807180132)]"

text \<open>The state after the count probe and the first page of \<open>dept_42\<close>.\<close>

definition after_first_page :: "env \<Rightarrow> world" where
  "after_first_page E =
     snd (session_get E dept_42 (snd (get_nb_offers E 0 (start_world dept_42))))"

text \<open>A state in which the caller holds another dictionary besides the params.\<close>

definition two_dicts :: world where
  "two_dicts =
     \<lparr>heap = [dept_42, recent_42], sent = [], reads = 0, errlog = [], splits = []\<rparr>"


section \<open>Basic facts about the state\<close>

lemma send_simps [simp]:
  "heap (snd (send E rq w)) = heap w"
  "sent (snd (send E rq w)) = sent w @ [rq]"
  "reads (snd (send E rq w)) = reads w"
  "errlog (snd (send E rq w)) = errlog w"
  "fst (send E rq w) = server E (sent w @ [rq])"
  by (simp_all add: send_def Let_def)

lemma session_get_heap [simp]: "heap (snd (session_get E q w)) = heap w"
  by (simp add: session_get_def Let_def split: prod.splits) (metis send_simps(1) snd_conv)

lemma log_error_simps [simp]:
  "heap (log_error c w) = heap w"
  "sent (log_error c w) = sent w"
  "reads (log_error c w) = reads w"
  "errlog (log_error c w) = errlog w @ [c]"
  by (simp_all add: log_error_def)

lemma stopped_simps [simp]:
  "yielded (stopped out w) = []"
  "outcome (stopped out w) = out"
  "final (stopped out w) = w"
  by (simp_all add: stopped_def)

lemma after_yield_simps [simp]:
  "yielded (after_yield c r) = c # yielded r"
  "outcome (after_yield c r) = outcome r"
  "final (after_yield c r) = final r"
  by (simp_all add: after_yield_def)

lemma then_run_simps [simp]:
  "yielded (then_run r1 r2) = yielded r1 @ yielded r2"
  "outcome (then_run r1 r2) = outcome r2"
  "final (then_run r1 r2) = final r2"
  by (simp_all add: then_run_def)

lemma note_split_simps [simp]:
  "heap (note_split a b w) = heap w"
  "sent (note_split a b w) = sent w"
  "reads (note_split a b w) = reads w"
  "errlog (note_split a b w) = errlog w"
  "splits (note_split a b w) = splits w @ [(a, b)]"
  by (simp_all add: note_split_def)

lemma get_nb_offers_simps [simp]:
  "heap (snd (get_nb_offers E p w)) = heap w"
  "sent (snd (get_nb_offers E p w)) = sent w @ [Head (heap w ! p)]"
  "fst (get_nb_offers E p w) = count_of (server E (sent w @ [Head (heap w ! p)]))"
  by (simp_all add: get_nb_offers_def send_def Let_def)

lemma read_clock_simps [simp]:
  "heap (snd (read_clock E w)) = heap w"
  "fst (read_clock E w) = now E (reads w)"
  by (simp_all add: read_clock_def)

lemma paging_loop_heap:
  assumes "paging_loop E p rng rng_d rng_end w = Some r"
  shows "heap (final r) = heap w"
  using assms
proof (induction rule: paging_loop.raw_induct[rotated 1, consumes 1, case_names step])
  case (step loop E p rng rng_d rng_end w r)
  note IH = step(1) and body = step(2)
  show ?case
  proof (cases "rng_d < rng_end")
    case False
    with body show ?thesis by auto
  next
    case True
    note lt = this
    let ?rw = "session_get E (heap w ! p) w"
    show ?thesis
    proof (cases "status_code (fst ?rw) \<noteq> 200 \<and> status_code (fst ?rw) \<noteq> 206")
      case True
      with lt body
      have "loop E p rng (advance rng rng_d rng_end) rng_end
              (log_error (status_code (fst ?rw)) (snd ?rw)) = Some r"
        by (simp add: Let_def)
      from IH[OF this] show ?thesis by simp
    next
      case False
      with lt body show ?thesis
        by (auto simp: Let_def split: sum.splits bind_splits dest!: IH)
    qed
  qed
qed

lemma get_lazy_unfold:
  "get_lazy_job_offers E p d w = lazy_body get_lazy_job_offers E p d w"
  by (subst get_lazy_job_offers.simps) (simp add: lazy_body_def)

lemma lazy_body_cases [consumes 1, case_names probe_error unknown walk split_error left_raised both]:
  assumes "lazy_body f E p d w = Some r"
  obtains
    e where "fst (get_nb_offers E p w) = Inl e"
      and "r = stopped (Some e) (snd (get_nb_offers E p w))"
  | "fst (get_nb_offers E p w) = Inr None"
      and "r = stopped (Some TypeError) (snd (get_nb_offers E p w))"
  | n where "fst (get_nb_offers E p w) = Inr (Some n)" and "n < MAX_RANGE"
      and "walk_window E p (snd (get_nb_offers E p w)) = Some r"
  | n e where "fst (get_nb_offers E p w) = Inr (Some n)" and "MAX_RANGE \<le> n"
      and "fst (split_params E p d (snd (get_nb_offers E p w))) = Inl e"
      and "r = stopped (Some e) (snd (split_params E p d (snd (get_nb_offers E p w))))"
  | n p1 p2 w2 where "fst (get_nb_offers E p w) = Inr (Some n)" and "MAX_RANGE \<le> n"
      and "split_params E p d (snd (get_nb_offers E p w)) = (Inr (p1, p2), w2)"
      and "f E p1 365 w2 = Some r" and "outcome r \<noteq> None"
  | n p1 p2 w2 r1 r2 where "fst (get_nb_offers E p w) = Inr (Some n)" and "MAX_RANGE \<le> n"
      and "split_params E p d (snd (get_nb_offers E p w)) = (Inr (p1, p2), w2)"
      and "f E p1 365 w2 = Some r1" and "outcome r1 = None"
      and "f E p2 365 (final r1) = Some r2" and "r = then_run r1 r2"
proof (cases "fst (get_nb_offers E p w)")
  case (Inl e)
  with assms have "r = stopped (Some e) (snd (get_nb_offers E p w))"
    by (auto simp: lazy_body_def Let_def)
  with Inl show ?thesis by (rule that(1))
next
  case (Inr nb)
  note nb = this
  show ?thesis
  proof (cases nb)
    case None
    with nb assms have "r = stopped (Some TypeError) (snd (get_nb_offers E p w))"
      by (auto simp: lazy_body_def Let_def)
    with nb None show ?thesis by (auto intro: that(2))
  next
    case (Some n)
    note n = this
    show ?thesis
    proof (cases "MAX_RANGE \<le> n")
      case False
      with nb n assms have "walk_window E p (snd (get_nb_offers E p w)) = Some r"
        by (auto simp: lazy_body_def Let_def)
      with nb n False show ?thesis by (auto intro: that(3))
    next
      case True
      let ?sw = "split_params E p d (snd (get_nb_offers E p w))"
      show ?thesis
      proof (cases "fst ?sw")
        case (Inl e)
        with nb n True assms have "r = stopped (Some e) (snd ?sw)"
          by (auto simp: lazy_body_def Let_def)
        with nb n True Inl show ?thesis by (auto intro: that(4))
      next
        case (Inr ps)
        obtain p1 p2 where ps: "ps = (p1, p2)" by (cases ps)
        have sw: "?sw = (Inr (p1, p2), snd ?sw)"
          using Inr ps by (metis prod.collapse)
        from nb n True Inr ps assms
        have "f E p1 365 (snd ?sw) \<bind>
                (\<lambda>r1. if outcome r1 \<noteq> None then Some r1
                      else f E p2 365 (final r1) \<bind> (\<lambda>r2. Some (then_run r1 r2))) = Some r"
          by (simp add: lazy_body_def Let_def)
        then obtain r1 where r1: "f E p1 365 (snd ?sw) = Some r1"
          and rest: "(if outcome r1 \<noteq> None then Some r1
                      else f E p2 365 (final r1) \<bind> (\<lambda>r2. Some (then_run r1 r2))) = Some r"
          unfolding bind_eq_Some_conv by blast
        show ?thesis
        proof (cases "outcome r1 = None")
          case False
          with rest have "r = r1" by simp
          with nb n True sw r1 False show ?thesis by (auto intro: that(5))
        next
          case True': True
          with rest have "f E p2 365 (final r1) \<bind> (\<lambda>r2. Some (then_run r1 r2)) = Some r"
            by simp
          then obtain r2 where "f E p2 365 (final r1) = Some r2" "r = then_run r1 r2"
            unfolding bind_eq_Some_conv by auto
          with nb n True sw r1 True' show ?thesis by (auto intro: that(6))
        qed
      qed
    qed
  qed
qed

lemma start_date_of_heap [simp]: "heap (snd (start_date_of E q d w)) = heap w"
  by (simp add: start_date_of_def Let_def split: option.splits prod.splits sum.splits)
     (metis read_clock_simps(1) snd_conv)

lemma end_date_of_heap [simp]: "heap (snd (end_date_of E q w)) = heap w"
  by (simp add: end_date_of_def Let_def split: option.splits prod.splits)
     (metis read_clock_simps(1) snd_conv)

lemma touched_refl [simp]: "touched p h h"
  by (simp add: touched_def)

lemma fold_published_heap: "touched p (heap w) (heap (snd (fold_published E p s w)))"
proof (cases "p < length (heap w)")
  case True
  then show ?thesis
    unfolding fold_published_def touched_def
    by (auto simp: Let_def read_clock_def split: option.splits sum.splits prod.splits)
next
  case False
  then show ?thesis
    unfolding fold_published_def touched_def
    by (auto simp: Let_def read_clock_def list_update_beyond
          split: option.splits sum.splits prod.splits)
qed

lemma resolve_window_heap: "touched p (heap w) (heap (snd (resolve_window E p d w)))"
proof -
  let ?w1 = "snd (start_date_of E (heap w ! p) d w)"
  let ?w2 = "snd (end_date_of E (heap ?w1 ! p) ?w1)"
  have h2: "heap ?w2 = heap w" by simp
  have "\<And>s. touched p (heap w) (heap (snd (fold_published E p s ?w2)))"
    using fold_published_heap[of p ?w2 E] h2 by simp
  then show ?thesis
    unfolding resolve_window_def
    by (auto split: prod.splits sum.splits)
       (metis fst_conv snd_conv start_date_of_heap end_date_of_heap touched_refl)+
qed

lemma walk_window_heap:
  assumes "walk_window E p w = Some r"
  shows "heap (final r) = heap w"
  using assms unfolding walk_window_def Let_def
  by (auto split: if_splits sum.splits option.splits dest: paging_loop_heap)

lemma make_children_Inr:
  assumes "make_children p s e w = (Inr (p1, p2), w')"
  shows "p1 = length (heap w) \<and> p2 = Suc (length (heap w))
       \<and> (\<exists>mid nxt. dt_check (s + half_even (e - s)) = Inr mid \<and> dt_check (mid + 1000000) = Inr nxt
            \<and> w' = w\<lparr>heap := heap w @
                 [AList.update ''maxCreationDate'' (strftime mid)
                    (AList.update ''minCreationDate'' (strftime s) (heap w ! p)),
                  AList.update ''maxCreationDate'' (strftime e)
                    (AList.update ''minCreationDate'' (strftime nxt) (heap w ! p))]\<rparr>)"
  using assms unfolding make_children_def Let_def
  by (auto split: sum.splits)

lemma make_children_heap:
  "\<exists>ys. heap (snd (make_children p s e w)) = heap w @ ys"
  unfolding make_children_def Let_def
  by (auto split: sum.splits)

lemma framed_refl [simp]: "framed p h h"
  unfolding framed_def by (metis append_Nil2 touched_refl)

lemma touched_length: "touched p h h' \<Longrightarrow> length h' = length h"
  by (auto simp: touched_def)

lemma split_params_heap:
  "\<exists>h0 ys. touched p (heap w) h0 \<and> heap (snd (split_params E p d w)) = h0 @ ys"
proof (cases "resolve_window E p d w")
  case (Pair res w1)
  have t: "touched p (heap w) (heap w1)"
    using resolve_window_heap[of p w E d] Pair by simp
  show ?thesis
  proof (cases res)
    case (Inl e)
    with Pair have "heap (snd (split_params E p d w)) = heap w1 @ []"
      by (simp add: split_params_def)
    with t show ?thesis by blast
  next
    case (Inr se)
    obtain s e where "se = (s, e)" by (cases se)
    with Pair Inr have "split_params E p d w = make_children p s e (note_split s e w1)"
      by (simp add: split_params_def)
    with make_children_heap[of p s e "note_split s e w1"] t show ?thesis by auto
  qed
qed

lemma split_params_Inr:
  assumes "split_params E p d w = (Inr (p1, p2), w')"
  shows "\<exists>h0 q1 q2. touched p (heap w) h0 \<and> heap w' = h0 @ [q1, q2]
           \<and> p1 = length (heap w) \<and> p2 = Suc (length (heap w))"
proof (cases "resolve_window E p d w")
  case (Pair res w1)
  have t: "touched p (heap w) (heap w1)"
    using resolve_window_heap[of p w E d] Pair by simp
  from assms Pair obtain s e where "res = Inr (s, e)"
    and mc: "make_children p s e (note_split s e w1) = (Inr (p1, p2), w')"
    by (auto simp: split_params_def split: sum.splits)
  from make_children_Inr[OF mc] t touched_length[OF t] show ?thesis
    by auto
qed

lemma touched_beyond:
  assumes "touched p1 (h0 @ zs) hx" and "length h0 \<le> p1"
  shows "\<exists>zs'. hx = h0 @ zs' \<and> length zs' = length zs"
  using assms by (auto simp: touched_def list_update_append)

lemma framed_beyond:
  assumes "framed p1 (h0 @ zs) h'" and "length h0 \<le> p1"
  shows "\<exists>zs'. h' = h0 @ zs'"
proof -
  from assms(1) obtain hx ys where "touched p1 (h0 @ zs) hx" and h': "h' = hx @ ys"
    unfolding framed_def by blast
  with touched_beyond[OF _ assms(2)] obtain zs' where "hx = h0 @ zs'" by blast
  with h' show ?thesis by simp
qed

lemma get_lazy_framed:
  assumes "get_lazy_job_offers E p d w = Some r"
  shows "framed p (heap w) (heap (final r))"
  using assms
proof (induction rule: get_lazy_job_offers.raw_induct[rotated 1, consumes 1, case_names step])
  case (step f E p d w r)
  from step(2) have body: "lazy_body f E p d w = Some r" by (simp add: lazy_body_def)
  from body show ?case
  proof (cases rule: lazy_body_cases)
    case (probe_error e)
    then show ?thesis by simp
  next
    case unknown
    then show ?thesis by simp
  next
    case (walk n)
    then show ?thesis using walk_window_heap by fastforce
  next
    case (split_error n e)
    then show ?thesis
      using split_params_heap[of p "snd (get_nb_offers E p w)" E d] by (auto simp: framed_def)
  next
    case (left_raised n p1 p2 w2)
    from split_params_Inr[OF left_raised(3)]
    obtain h0 q1 q2 where t: "touched p (heap w) h0" and w2: "heap w2 = h0 @ [q1, q2]"
      and p1: "p1 = length (heap w)" by auto
    from step(1)[OF left_raised(4)] w2 have "framed p1 (h0 @ [q1, q2]) (heap (final r))" by simp
    from framed_beyond[OF this] p1 touched_length[OF t]
    obtain zs where "heap (final r) = h0 @ zs" by auto
    with t show ?thesis unfolding framed_def by blast
  next
    case (both n p1 p2 w2 r1 r2)
    from split_params_Inr[OF both(3)]
    obtain h0 q1 q2 where t: "touched p (heap w) h0" and w2: "heap w2 = h0 @ [q1, q2]"
      and p1: "p1 = length (heap w)" and p2: "p2 = Suc (length (heap w))" by auto
    from step(1)[OF both(4)] w2 have "framed p1 (h0 @ [q1, q2]) (heap (final r1))" by simp
    from framed_beyond[OF this] p1 touched_length[OF t]
    obtain zs where r1: "heap (final r1) = h0 @ zs" by auto
    from step(1)[OF both(6)] r1 have "framed p2 (h0 @ zs) (heap (final r2))" by simp
    from framed_beyond[OF this] p2 touched_length[OF t]
    obtain zs' where "heap (final r2) = h0 @ zs'" by auto
    with t both(7) show ?thesis unfolding framed_def by auto
  qed
qed

lemma touched_nth:
  assumes "touched p h h0" and "a \<noteq> p"
  shows "h0 ! a = h ! a"
  using assms by (auto simp: touched_def)

lemma touched_at:
  assumes "touched p h h0"
  shows "h0 ! p = h ! p \<or> h0 ! p = AList.delete ''publieeDepuis'' (h ! p)"
  using assms by (auto simp: touched_def)

lemma framed_nth:
  assumes "framed p h h'" and "a < length h" and "a \<noteq> p"
  shows "h' ! a = h ! a"
  using assms unfolding framed_def
  by (auto simp: nth_append touched_length touched_nth)

lemma framed_at:
  assumes "framed p h h'" and "p < length h"
  shows "h' ! p = h ! p \<or> h' ! p = AList.delete ''publieeDepuis'' (h ! p)"
proof -
  from assms(1) obtain h0 ys where t: "touched p h h0" and h': "h' = h0 @ ys"
    unfolding framed_def by blast
  from assms(2) touched_length[OF t] have "h' ! p = h0 ! p"
    by (simp add: h' nth_append)
  with touched_at[OF t] show ?thesis by simp
qed

lemma framed_length:
  assumes "framed p h h'"
  shows "length h \<le> length h'"
  using assms unfolding framed_def by (auto simp: touched_length)

lemma half_even_nonneg: "0 \<le> D \<Longrightarrow> 0 \<le> half_even D \<and> half_even D \<le> D"
  unfolding half_even_def Let_def by (auto; presburger)

lemma half_even_nonpos: "D \<le> 0 \<Longrightarrow> D \<le> half_even D \<and> half_even D \<le> 0"
  unfolding half_even_def Let_def by (auto; presburger)

lemma half_even_less: "1 \<le> D \<Longrightarrow> half_even D < D"
  unfolding half_even_def Let_def by (auto; presburger)

lemma half_even_double [simp]: "half_even (2 * k) = k"
  unfolding half_even_def Let_def by simp

lemma window_of_update [simp]:
  "window_of (AList.update ''maxCreationDate'' (strftime b)
       (AList.update ''minCreationDate'' (strftime a) q))
     = Some (a div 1000000, b div 1000000)"
  by (simp add: window_of_def update_conv' strftime_def)

lemma other_key_update [simp]:
  "map_of (AList.update ''maxCreationDate'' y
       (AList.update ''minCreationDate'' x q)) ''publieeDepuis''
     = map_of q ''publieeDepuis''"
  by (simp add: update_conv')

lemma min_key_update [simp]:
  "map_of (AList.update ''maxCreationDate'' y
       (AList.update ''minCreationDate'' x q)) ''minCreationDate'' = Some x"
  by (simp add: update_conv')

lemma make_children_dicts:
  assumes "make_children p s e w = (Inr (p1, p2), w')"
  shows "\<exists>mid. dt_check (s + half_even (e - s)) = Inr mid
           \<and> dt_check (mid + 1000000) = Inr (mid + 1000000)
           \<and> heap w' ! p1 = AList.update ''maxCreationDate'' (strftime mid)
                    (AList.update ''minCreationDate'' (strftime s) (heap w ! p))
           \<and> heap w' ! p2 = AList.update ''maxCreationDate'' (strftime e)
                    (AList.update ''minCreationDate'' (strftime (mid + 1000000)) (heap w ! p))"
proof -
  from make_children_Inr[OF assms] obtain mid nxt where
    p1: "p1 = length (heap w)" and p2: "p2 = Suc (length (heap w))"
    and mid: "dt_check (s + half_even (e - s)) = Inr mid"
    and nxt: "dt_check (mid + 1000000) = Inr nxt"
    and w': "w' = w\<lparr>heap := heap w @
                 [AList.update ''maxCreationDate'' (strftime mid)
                    (AList.update ''minCreationDate'' (strftime s) (heap w ! p)),
                  AList.update ''maxCreationDate'' (strftime e)
                    (AList.update ''minCreationDate'' (strftime nxt) (heap w ! p))]\<rparr>"
    by blast
  from nxt have "nxt = mid + 1000000"
    by (auto simp: dt_check_def split: if_splits)
  with p1 p2 mid nxt w' show ?thesis
    by (auto simp: nth_append)
qed

lemma dt_check_Inr: "dt_check t = Inr u \<Longrightarrow> u = t"
  by (auto simp: dt_check_def split: if_splits)

lemma split_params_resolved:
  assumes "split_params E p d w = (Inr (p1, p2), w')"
  shows "\<exists>sd ed w1. resolve_window E p d w = (Inr (sd, ed), w1)
           \<and> make_children p sd ed (note_split sd ed w1) = (Inr (p1, p2), w')"
  using assms unfolding split_params_def
  by (auto split: prod.splits sum.splits)

lemma split_params_dicts:
  assumes "split_params E p d w = (Inr (p1, p2), w')"
  shows "\<exists>sd ed w1 mid.
           resolve_window E p d w = (Inr (sd, ed), w1)
         \<and> dt_check (sd + half_even (ed - sd)) = Inr mid
         \<and> heap w' ! p1 = AList.update ''maxCreationDate'' (strftime mid)
                    (AList.update ''minCreationDate'' (strftime sd) (heap w1 ! p))
         \<and> heap w' ! p2 = AList.update ''maxCreationDate'' (strftime ed)
                    (AList.update ''minCreationDate'' (strftime (mid + 1000000)) (heap w1 ! p))
         \<and> splits w' = splits w1 @ [(sd, ed)]"
proof -
  from split_params_resolved[OF assms] obtain sd ed w1 where
    rw: "resolve_window E p d w = (Inr (sd, ed), w1)"
    and mc: "make_children p sd ed (note_split sd ed w1) = (Inr (p1, p2), w')" by blast
  from make_children_dicts[OF mc] obtain mid where
    "dt_check (sd + half_even (ed - sd)) = Inr mid"
    "heap w' ! p1 = AList.update ''maxCreationDate'' (strftime mid)
                    (AList.update ''minCreationDate'' (strftime sd) (heap w1 ! p))"
    "heap w' ! p2 = AList.update ''maxCreationDate'' (strftime ed)
                    (AList.update ''minCreationDate'' (strftime (mid + 1000000)) (heap w1 ! p))"
    by auto
  moreover from make_children_Inr[OF mc] have "splits w' = splits w1 @ [(sd, ed)]"
    by auto
  ultimately show ?thesis using rw by blast
qed

lemma fold_published_Inr:
  assumes "fold_published E p start w = (Inr s', w')"
    and "map_of (heap w ! p) ''publieeDepuis'' = Some v"
    and "p < length (heap w)"
  shows "\<exists>N. py_int v = Inr N
           \<and> s' = max start (now E (reads w) - N * 86400000000)
           \<and> (start < now E (reads w) - N * 86400000000 \<longrightarrow>
                heap w' ! p = AList.delete ''publieeDepuis'' (heap w ! p))
           \<and> (now E (reads w) - N * 86400000000 \<le> start \<longrightarrow> heap w' ! p = heap w ! p)"
  using assms unfolding fold_published_def Let_def
  by (auto simp: read_clock_def timedelta_days_def dest!: dt_check_Inr
        split: sum.splits if_splits)

lemma delete_absent [simp]: "map_of (AList.delete k q) k = None"
  by (simp add: delete_conv')

lemma paging_loop_skip:
  assumes "rng_d < rng_end"
    and "session_get E (heap w ! p) w = (r, w1)"
    and "status_code r \<noteq> 200" and "status_code r \<noteq> 206"
  shows "paging_loop E p rng rng_d rng_end w
           = paging_loop E p rng (advance rng rng_d rng_end) rng_end
               (log_error (status_code r) w1)"
  using assms by (subst paging_loop.simps) (simp add: Let_def)

lemma paging_loop_page:
  assumes "rng_d < rng_end"
    and "session_get E (heap w ! p) w = (r, w1)"
    and "status_code r = 200 \<or> status_code r = 206"
    and "chunk_of r = Inr c"
  shows "paging_loop E p rng rng_d rng_end w
           = paging_loop E p rng (advance rng rng_d rng_end) rng_end w1
               \<bind> (\<lambda>r'. Some (after_yield (heap w ! p, c) r'))"
  using assms by (subst paging_loop.simps) (auto simp: Let_def)

lemma paging_loop_done:
  assumes "\<not> rng_d < rng_end"
  shows "paging_loop E p rng rng_d rng_end w = Some (stopped None w)"
  using assms by (subst paging_loop.simps) simp

lemma walk_window_abort:
  assumes "session_get E (heap w ! p) w = (r, w1)"
    and "status_code r \<noteq> 200" and "status_code r \<noteq> 206"
  shows "walk_window E p w = Some (stopped None (log_error (status_code r) w1))"
  using assms by (simp add: walk_window_def Let_def)

lemma then_run_stopped [simp]: "then_run (stopped None w) r = r"
  by (simp add: then_run_def stopped_def)

lemma get_lazy_below:
  assumes "fst (get_nb_offers E p w) = Inr (Some n)" and "n < MAX_RANGE"
  shows "get_lazy_job_offers E p d w = walk_window E p (snd (get_nb_offers E p w))"
  using assms by (subst get_lazy_job_offers.simps) (simp add: Let_def)

lemma get_lazy_split:
  assumes "fst (get_nb_offers E p w) = Inr (Some n)" and "MAX_RANGE \<le> n"
    and "split_params E p d (snd (get_nb_offers E p w)) = (Inr (p1, p2), w2)"
  shows "get_lazy_job_offers E p d w =
           get_lazy_job_offers E p1 365 w2 \<bind>
             (\<lambda>r1. if outcome r1 \<noteq> None then Some r1
                   else get_lazy_job_offers E p2 365 (final r1) \<bind>
                          (\<lambda>r2. Some (then_run r1 r2)))"
  using assms by (subst get_lazy_job_offers.simps) (simp add: Let_def)

lemma flatten_append:
  "flatten (cs1 @ cs2) out =
     (case flatten cs1 None of
        Inl e \<Rightarrow> Inl e
      | Inr xs \<Rightarrow> (case flatten cs2 out of Inl e \<Rightarrow> Inl e | Inr ys \<Rightarrow> Inr (xs @ ys)))"
  by (induction cs1) (auto split: sum.splits)

lemma session_get_dependable:
  assumes "dependable E"
  shows "session_get E q w = (server E (sent w @ [Get q]), w\<lparr>sent := sent w @ [Get q]\<rparr>)"
  using assms by (simp add: session_get_def send_def Let_def dependable_def)

lemma replicate_Suc_append: "xs @ x # replicate n x = (xs @ [x]) @ replicate n x"
  by simp

lemma paging_loop_count:
  assumes "dependable E" and "0 < rng"
  shows "\<exists>r. paging_loop E p rng rng_d rng_end w = Some r \<and> outcome r = None
           \<and> heap (final r) = heap w
           \<and> sent (final r)
               = sent w @ replicate (iterations rng rng_d rng_end) (Get (heap w ! p))
           \<and> length (yielded r)
               = successes E (sent w)
                   (replicate (iterations rng rng_d rng_end) (Get (heap w ! p)))"
  using assms
proof (induction rng rng_d rng_end arbitrary: w rule: iterations.induct)
  case (1 rng rng_d rng_end)
  show ?case
  proof (cases "rng_d < rng_end")
    case False
    then have "iterations rng rng_d rng_end = 0" by (simp add: iterations.simps)
    with False show ?thesis by (simp add: paging_loop_done)
  next
    case True
    let ?q = "heap w ! p"
    let ?r = "server E (sent w @ [Get ?q])"
    let ?w1 = "w\<lparr>sent := sent w @ [Get ?q]\<rparr>"
    let ?d = "advance rng rng_d rng_end"
    have sg: "session_get E ?q w = (?r, ?w1)"
      using session_get_dependable[OF "1.prems"(1)] .
    have it: "iterations rng rng_d rng_end = Suc (iterations rng ?d rng_end)"
      using True "1.prems"(2) by (subst iterations.simps) simp
    show ?thesis
    proof (cases "status_code ?r = 200 \<or> status_code ?r = 206")
      case False
      then have eq: "paging_loop E p rng rng_d rng_end w
                 = paging_loop E p rng ?d rng_end (log_error (status_code ?r) ?w1)"
        using paging_loop_skip[OF True sg] by simp
      from "1.IH"[OF _ "1.prems", of "log_error (status_code ?r) ?w1"] True "1.prems"(2)
      obtain r where r: "paging_loop E p rng ?d rng_end (log_error (status_code ?r) ?w1) = Some r"
        "outcome r = None" "heap (final r) = heap w"
        "sent (final r) = (sent w @ [Get ?q]) @ replicate (iterations rng ?d rng_end) (Get ?q)"
        "length (yielded r) = successes E (sent w @ [Get ?q])
                                (replicate (iterations rng ?d rng_end) (Get ?q))"
        by auto
      with eq it False show ?thesis by simp
    next
      case ok: True
      with "1.prems"(1) obtain c where c: "chunk_of ?r = Inr c"
        unfolding dependable_def by blast
      have eq: "paging_loop E p rng rng_d rng_end w
                 = paging_loop E p rng ?d rng_end ?w1
                     \<bind> (\<lambda>r'. Some (after_yield (?q, c) r'))"
        using paging_loop_page[OF True sg ok c] .
      from "1.IH"[OF _ "1.prems", of ?w1] True "1.prems"(2)
      obtain r where r: "paging_loop E p rng ?d rng_end ?w1 = Some r"
        "outcome r = None" "heap (final r) = heap w"
        "sent (final r) = (sent w @ [Get ?q]) @ replicate (iterations rng ?d rng_end) (Get ?q)"
        "length (yielded r) = successes E (sent w @ [Get ?q])
                                (replicate (iterations rng ?d rng_end) (Get ?q))"
        by auto
      with eq it ok show ?thesis by simp
    qed
  qed
qed

lemma div_less_of_less_mult:
  fixes rng :: int
  assumes "0 < rng" and "tot < j * rng"
  shows "tot div rng < j"
proof (rule ccontr)
  assume "\<not> tot div rng < j"
  then have "j \<le> tot div rng" by simp
  then have "j * rng \<le> (tot div rng) * rng"
    using assms(1) by (simp add: mult_right_mono)
  also have "(tot div rng) * rng \<le> tot"
  proof -
    have "(tot div rng) * rng + tot mod rng = tot" by simp
    moreover have "0 \<le> tot mod rng" using assms(1) by simp
    ultimately show ?thesis by linarith
  qed
  finally show False using assms(2) by simp
qed

lemma le_div_of_mult_le:
  fixes rng :: int
  assumes "0 < rng" and "j * rng \<le> tot"
  shows "j \<le> tot div rng"
  using assms zdiv_mono1 by fastforce

lemma iterations_aligned:
  assumes "0 < rng" and "rng_d = j * rng - 1" and "0 < j"
  shows "iterations rng rng_d tot = nat (tot div rng - (j - 1))"
  using assms
proof (induction rng rng_d tot arbitrary: j rule: iterations.induct)
  case (1 rng rng_d tot)
  note pos = "1.prems"(1) and rd = "1.prems"(2)
  have q: "tot = rng * (tot div rng) + tot mod rng"
    and m: "0 \<le> tot mod rng" "tot mod rng < rng"
    using pos by simp_all
  show ?case
  proof (cases "rng_d < tot")
    case False
    with rd have "tot < j * rng" by simp
    then have "tot div rng < j"
      using pos by (simp add: div_less_of_less_mult)
    with False show ?thesis by (simp add: iterations.simps)
  next
    case True
    with rd have "j * rng \<le> tot" by simp
    then have ge: "j \<le> tot div rng"
      using pos by (simp add: le_div_of_mult_le)
    have it: "iterations rng rng_d tot = Suc (iterations rng (advance rng rng_d tot) tot)"
      using True pos by (subst iterations.simps) simp
    show ?thesis
    proof (cases "rng_d + rng \<le> tot")
      case capped: False
      then have adv: "advance rng rng_d tot = tot" by (simp add: advance_def)
      have "iterations rng tot tot = 0" by (simp add: iterations.simps)
      moreover from capped rd have "tot < (j + 1) * rng" by (simp add: algebra_simps)
      then have "tot div rng < j + 1"
        using div_less_of_less_mult[OF pos, of tot "j + 1"] by blast
      ultimately show ?thesis using it adv ge by simp
    next
      case True
      then have adv: "advance rng rng_d tot = (j + 1) * rng - 1"
        using rd by (simp add: advance_def algebra_simps)
      from "1.IH"[OF _ pos adv] \<open>rng_d < tot\<close> pos "1.prems"(3)
      have "iterations rng (advance rng rng_d tot) tot = nat (tot div rng - j)"
        by simp
      with it ge show ?thesis by simp
    qed
  qed
qed

lemma iterations_closed:
  assumes "0 < rng"
  shows "iterations rng (rng - 1) tot = nat (tot div rng)"
  using iterations_aligned[OF assms, of "rng - 1" 1 tot] by simp

lemma dependable_paged: "dependable paged_env"
  by (simp add: dependable_def paged_env_def paged_server_def reply_def chunk_of_def)

lemma paging_loop_terminates:
  assumes "0 < rng"
  shows "paging_loop E p rng rng_d rng_end w \<noteq> None"
  using assms
proof (induction rng rng_d rng_end arbitrary: w rule: iterations.induct)
  case (1 rng rng_d rng_end)
  show ?case
  proof (cases "rng_d < rng_end")
    case False
    then show ?thesis by (simp add: paging_loop_done)
  next
    case True
    let ?sg = "session_get E (heap w ! p) w"
    have sg: "?sg = (fst ?sg, snd ?sg)" by simp
    have IH: "\<And>w'. paging_loop E p rng (advance rng rng_d rng_end) rng_end w' \<noteq> None"
      using "1.IH" True "1.prems" by simp
    show ?thesis
    proof (cases "status_code (fst ?sg) = 200 \<or> status_code (fst ?sg) = 206")
      case False
      with paging_loop_skip[OF True sg] IH show ?thesis by simp
    next
      case ok: True
      show ?thesis
      proof (cases "chunk_of (fst ?sg)")
        case (Inl e)
        with True ok show ?thesis
          by (subst paging_loop.simps) (auto simp: Let_def)
      next
        case (Inr c)
        from paging_loop_page[OF True sg ok Inr] IH show ?thesis
          by (auto simp: bind_eq_None_conv)
      qed
    qed
  qed
qed

lemma session_get_answer: "\<exists>h. fst (session_get E q w) = server E h"
  by (auto simp: session_get_def send_def Let_def)

lemma walk_window_terminates:
  assumes "positive_pages E"
  shows "walk_window E p w \<noteq> None"
proof -
  let ?r = "fst (session_get E (heap w ! p) w)"
  have pos: "0 < n" if "status_code ?r = 206" "accept_range ?r = Inr n" for n
    using that assms session_get_answer[of E "heap w ! p" w]
    unfolding positive_pages_def by metis
  show ?thesis
  proof (cases "status_code ?r = 206")
    case False
    then show ?thesis
      unfolding walk_window_def Let_def by (auto split: sum.splits)
  next
    case True
    show ?thesis
    proof (cases "accept_range ?r")
      case (Inl e)
      with True show ?thesis
        unfolding walk_window_def Let_def by (auto split: sum.splits)
    next
      case (Inr n)
      note ar = this
      show ?thesis
      proof (cases "chunk_of ?r")
        case (Inl e)
        with True show ?thesis
          unfolding walk_window_def Let_def by simp
      next
        case (Inr c)
        note ch = this
        show ?thesis
        proof (cases "content_range_total ?r")
          case (Inl e)
          with True ch show ?thesis
            unfolding walk_window_def Let_def by simp
        next
          case (Inr m)
          from paging_loop_terminates[OF pos[OF True ar]]
          obtain y where "paging_loop E p n (n - 1) m (snd (session_get E (heap w ! p) w)) = Some y"
            by blast
          with True ar ch Inr show ?thesis
            unfolding walk_window_def Let_def by simp
        qed
      qed
    qed
  qed
qed

lemma fold_published_ge:
  assumes "fold_published E p st w = (Inr st', w')"
  shows "st \<le> st'"
  using assms unfolding fold_published_def Let_def
  by (auto split: option.splits sum.splits prod.splits if_splits)

lemma window_of_keys:
  assumes "window_of q = Some (s, e)"
  shows "map_of q ''minCreationDate'' = Some (PStamp s)
       \<and> map_of q ''maxCreationDate'' = Some (PStamp e)"
  using assms unfolding window_of_def
  by (auto split: option.splits pval.splits)

lemma strptime_Inr: "strptime (PStamp n) = Inr t \<Longrightarrow> t = n * 1000000"
  by (auto split: if_splits)

lemma resolve_window_stamped:
  assumes "window_of (heap w ! p) = Some (s, e)"
    and "resolve_window E p d w = (Inr (sd, ed), w1)"
  shows "s * 1000000 \<le> sd \<and> ed = e * 1000000"
proof -
  from window_of_keys[OF assms(1)]
  have mn: "map_of (heap w ! p) ''minCreationDate'' = Some (PStamp s)"
    and mx: "map_of (heap w ! p) ''maxCreationDate'' = Some (PStamp e)" by simp_all
  have sdo: "start_date_of E (heap w ! p) d w = (strptime (PStamp s), w)"
    using mn by (simp add: start_date_of_def)
  have edo: "end_date_of E (heap w ! p) w = (strptime (PStamp e), w)"
    using mx by (simp add: end_date_of_def)
  from assms(2) sdo edo obtain st where st: "strptime (PStamp s) = Inr st"
    and en: "strptime (PStamp e) = Inr ed"
    and fp: "fold_published E p st w = (Inr sd, w1)"
    unfolding resolve_window_def by (auto split: sum.splits prod.splits)
  from strptime_Inr[OF st] strptime_Inr[OF en] fold_published_ge[OF fp]
  show ?thesis by simp
qed

lemma split_params_windows:
  assumes "split_params E p d w = (Inr (p1, p2), w2)"
  shows "\<exists>sd ed w1 mid.
           resolve_window E p d w = (Inr (sd, ed), w1)
         \<and> mid = sd + half_even (ed - sd)
         \<and> window_of (heap w2 ! p1) = Some (sd div 1000000, mid div 1000000)
         \<and> window_of (heap w2 ! p2) = Some (mid div 1000000 + 1, ed div 1000000)
         \<and> map_of (heap w2 ! p1) ''publieeDepuis'' = map_of (heap w1 ! p) ''publieeDepuis''
         \<and> map_of (heap w2 ! p2) ''publieeDepuis'' = map_of (heap w1 ! p) ''publieeDepuis''
         \<and> p1 = length (heap w) \<and> p2 = Suc (length (heap w))
         \<and> length (heap w2) = length (heap w) + 2"
proof -
  from split_params_dicts[OF assms] obtain sd ed w1 mid where
    rw: "resolve_window E p d w = (Inr (sd, ed), w1)"
    and mid: "dt_check (sd + half_even (ed - sd)) = Inr mid"
    and d1: "heap w2 ! p1 = AList.update ''maxCreationDate'' (strftime mid)
                    (AList.update ''minCreationDate'' (strftime sd) (heap w1 ! p))"
    and d2: "heap w2 ! p2 = AList.update ''maxCreationDate'' (strftime ed)
                    (AList.update ''minCreationDate'' (strftime (mid + 1000000)) (heap w1 ! p))"
    by blast
  from dt_check_Inr[OF mid] have m: "mid = sd + half_even (ed - sd)" .
  have "(mid + 1000000) div 1000000 = mid div 1000000 + 1" by simp
  with d1 d2 have
    "window_of (heap w2 ! p1) = Some (sd div 1000000, mid div 1000000)"
    "window_of (heap w2 ! p2) = Some (mid div 1000000 + 1, ed div 1000000)"
    "map_of (heap w2 ! p1) ''publieeDepuis'' = map_of (heap w1 ! p) ''publieeDepuis''"
    "map_of (heap w2 ! p2) ''publieeDepuis'' = map_of (heap w1 ! p) ''publieeDepuis''"
    by simp_all
  moreover from split_params_Inr[OF assms]
  have "p1 = length (heap w)" "p2 = Suc (length (heap w))"
    "length (heap w2) = length (heap w) + 2"
    by (auto dest: touched_length)
  ultimately show ?thesis using rw m by blast
qed

lemma second_child_kept:
  assumes "split_params E p d w = (Inr (p1, p2), w2)"
    and "get_lazy_job_offers E p1 d' w2 = Some r1"
  shows "heap (final r1) ! p2 = heap w2 ! p2"
proof -
  from split_params_windows[OF assms(1)]
  have "p2 < length (heap w2)" "p2 \<noteq> p1" by auto
  with framed_nth[OF get_lazy_framed[OF assms(2)]] show ?thesis by simp
qed

lemma split_reduces_iff: "split_reduces s e \<longleftrightarrow> s < e"
  unfolding split_reduces_def Let_def by (auto; presburger)

lemma children_shrink:
  assumes "s < e" and "s * 1000000 \<le> sd"
  shows "nat ((sd + half_even (e * 1000000 - sd)) div 1000000 - sd div 1000000) < nat (e - s)
       \<and> nat (e - ((sd + half_even (e * 1000000 - sd)) div 1000000 + 1)) < nat (e - s)"
proof -
  let ?mid = "sd + half_even (e * 1000000 - sd)"
  have s1: "s \<le> sd div 1000000"
    using assms(2) le_div_of_mult_le[of 1000000 s sd] by simp
  have lo: "s \<le> ?mid div 1000000"
  proof -
    have "s * 1000000 \<le> ?mid"
    proof (cases "sd \<le> e * 1000000")
      case True
      with half_even_nonneg[of "e * 1000000 - sd"] assms(2) show ?thesis by simp
    next
      case False
      with half_even_nonpos[of "e * 1000000 - sd"] assms(1) show ?thesis by simp
    qed
    then show ?thesis using le_div_of_mult_le[of 1000000 s ?mid] by simp
  qed
  have hi: "?mid div 1000000 - sd div 1000000 < e - s"
  proof (cases "sd < e * 1000000")
    case True
    with half_even_less[of "e * 1000000 - sd"] have "?mid < e * 1000000" by simp
    then have "?mid div 1000000 < e"
      using div_less_of_less_mult[of 1000000 ?mid e] by simp
    with s1 show ?thesis by simp
  next
    case False
    with half_even_nonpos[of "e * 1000000 - sd"] have "?mid \<le> sd" by simp
    then have "?mid div 1000000 \<le> sd div 1000000" by (simp add: zdiv_mono1)
    with assms(1) show ?thesis by simp
  qed
  from lo hi assms(1) show ?thesis by simp
qed

lemma stamped_terminates:
  assumes "shrinking_counts E" and "positive_pages E"
    and "window_of (heap w ! p) = Some (s, e)"
  shows "get_lazy_job_offers E p d w \<noteq> None"
  using assms(3)
proof (induction "nat (e - s)" arbitrary: p d w s e rule: less_induct)
  case less
  let ?nw = "get_nb_offers E p w"
  show ?case
  proof (cases "fst ?nw")
    case (Inl err)
    then show ?thesis by (subst get_lazy_job_offers.simps) (simp add: Let_def)
  next
    case (Inr nb)
    show ?thesis
    proof (cases nb)
      case None
      with Inr show ?thesis by (subst get_lazy_job_offers.simps) (simp add: Let_def)
    next
      case (Some n)
      with Inr have probe: "fst ?nw = Inr (Some n)" by simp
      show ?thesis
      proof (cases "n < MAX_RANGE")
        case True
        with get_lazy_below[OF probe True] walk_window_terminates[OF assms(2)]
        show ?thesis by simp
      next
        case False
        then have ge: "MAX_RANGE \<le> n" by simp
        from probe have "count_of (server E (sent w @ [Head (heap w ! p)])) = Inr (Some n)"
          by simp
        with assms(1) less.prems ge have "split_reduces s e"
          unfolding shrinking_counts_def by blast
        then have lt: "s < e" by (simp add: split_reduces_iff)
        let ?sw = "split_params E p d (snd ?nw)"
        show ?thesis
        proof (cases "fst ?sw")
          case (Inl err)
          with probe ge show ?thesis
            by (subst get_lazy_job_offers.simps) (simp add: Let_def)
        next
          case (Inr ps)
          obtain p1 p2 where ps: "ps = (p1, p2)" by (cases ps)
          with Inr have sp: "?sw = (Inr (p1, p2), snd ?sw)" by (metis prod.collapse)
          let ?w2 = "snd ?sw"
          from split_params_windows[OF sp] obtain sd ed w1 where
            rw: "resolve_window E p d (snd ?nw) = (Inr (sd, ed), w1)"
            and c1: "window_of (heap ?w2 ! p1)
                       = Some (sd div 1000000, (sd + half_even (ed - sd)) div 1000000)"
            and c2: "window_of (heap ?w2 ! p2)
                       = Some ((sd + half_even (ed - sd)) div 1000000 + 1, ed div 1000000)"
            by blast
          have "window_of (heap (snd ?nw) ! p) = Some (s, e)" using less.prems by simp
          from resolve_window_stamped[OF this rw]
          have sd: "s * 1000000 \<le> sd" and ed: "ed = e * 1000000" by simp_all
          from children_shrink[OF lt sd] ed
          have m1: "nat ((sd + half_even (ed - sd)) div 1000000 - sd div 1000000) < nat (e - s)"
            and m2: "nat (ed div 1000000 - ((sd + half_even (ed - sd)) div 1000000 + 1))
                       < nat (e - s)"
            by simp_all
          from less.hyps[OF m1 c1] obtain r1 where
            r1: "get_lazy_job_offers E p1 365 ?w2 = Some r1" by blast
          have unfold: "get_lazy_job_offers E p d w =
              get_lazy_job_offers E p1 365 ?w2 \<bind>
                (\<lambda>r1. if outcome r1 \<noteq> None then Some r1
                   else get_lazy_job_offers E p2 365 (final r1) \<bind>
                          (\<lambda>r2. Some (then_run r1 r2)))"
            using get_lazy_split[OF probe ge sp] .
          show ?thesis
          proof (cases "outcome r1 = None")
            case False
            with unfold r1 show ?thesis by simp
          next
            case True
            from second_child_kept[OF sp r1] c2
            have "window_of (heap (final r1) ! p2)
                       = Some ((sd + half_even (ed - sd)) div 1000000 + 1, ed div 1000000)"
              by simp
            from less.hyps[OF m2 this] obtain r2 where
              "get_lazy_job_offers E p2 365 (final r1) = Some r2" by blast
            with unfold r1 True show ?thesis by simp
          qed
        qed
      qed
    qed
  qed
qed

lemma count_1200 [simp]:
  "count_of (reply 206 [(''Content-Range'', ''offres 0-0/1200'')] None) = Inr (Some 1200)"
  by code_simp

lemma count_3500 [simp]:
  "count_of (reply 206 [(''Content-Range'', ''offres 0-0/3500'')] None) = Inr (Some 3500)"
  by code_simp

lemma count_5 [simp]:
  "count_of (reply 206 [(''Content-Range'', ''offres 0-0/5'')] None) = Inr (Some 5)"
  by code_simp

lemma shrinking_dense: "shrinking_counts dense_env"
  unfolding shrinking_counts_def dense_env_def dense_server_def
  by (auto simp: split_reduces_iff MAX_RANGE_def split: if_splits)

lemma positive_dense: "positive_pages dense_env"
  unfolding positive_pages_def dense_env_def dense_server_def
  by (auto simp: reply_def accept_range_def split: request.splits)

lemma shrinking_zero_page: "shrinking_counts zero_page_env"
  unfolding shrinking_counts_def zero_page_env_def zero_page_server_def
  by (auto simp: MAX_RANGE_def)

lemma zero_page_loop:
  assumes "paging_loop E p rng rng_d rng_end w = Some r"
  shows "\<not> (E = zero_page_env \<and> rng = 0 \<and> rng_d = - 1 \<and> rng_end = 5)"
  using assms
proof (induction rule: paging_loop.raw_induct[rotated 1, consumes 1, case_names step])
  case (step loop E p rng rng_d rng_end w r)
  show ?case
  proof
    assume a: "E = zero_page_env \<and> rng = 0 \<and> rng_d = - 1 \<and> rng_end = 5"
    let ?rw = "session_get zero_page_env (heap w ! p) w"
    have st: "status_code (fst ?rw) = 206"
      by (simp add: session_get_def send_def Let_def zero_page_env_def zero_page_server_def
            reply_def)
    have ch: "chunk_of (fst ?rw) = Inr (JArr [])"
      by (simp add: session_get_def send_def Let_def zero_page_env_def zero_page_server_def
            reply_def chunk_of_def)
    from step(2) a st ch
    have "loop zero_page_env p 0 (- 1) 5 (snd ?rw)
            \<bind> (\<lambda>r'. Some (after_yield (heap w ! p, JArr []) r')) = Some r"
      by (simp add: Let_def advance_def)
    then obtain r' where "loop zero_page_env p 0 (- 1) 5 (snd ?rw) = Some r'"
      unfolding bind_eq_Some_conv by blast
    from step(1)[OF this] show False by simp
  qed
qed

lemma lazy_body_mono:
  assumes "\<And>E p d w r. f E p d w = Some r \<Longrightarrow> g E p d w = Some r"
    and "lazy_body f E p d w = Some r"
  shows "lazy_body g E p d w = Some r"
  using assms(2)
proof (cases rule: lazy_body_cases)
  case (probe_error e)
  then show ?thesis by (simp add: lazy_body_def Let_def)
next
  case unknown
  then show ?thesis by (simp add: lazy_body_def Let_def)
next
  case (walk n)
  then show ?thesis by (simp add: lazy_body_def Let_def)
next
  case (split_error n e)
  then show ?thesis by (simp add: lazy_body_def Let_def)
next
  case (left_raised n p1 p2 w2)
  from assms(1)[OF left_raised(4)] left_raised show ?thesis
    by (simp add: lazy_body_def Let_def)
next
  case (both n p1 p2 w2 r1 r2)
  from assms(1)[OF both(4)] assms(1)[OF both(6)] both show ?thesis
    by (simp add: lazy_body_def Let_def)
qed

lemma get_lazy_induct [consumes 1, case_names step]:
  assumes "get_lazy_job_offers E p d w = Some r"
    and step: "\<And>f E p d w r.
        (\<And>E p d w r. f E p d w = Some r \<Longrightarrow>
            get_lazy_job_offers E p d w = Some r \<and> P E p d w r)
        \<Longrightarrow> lazy_body f E p d w = Some r
        \<Longrightarrow> P E p d w r"
  shows "P E p d w r"
proof -
  have "get_lazy_job_offers E p d w = Some r \<and> P E p d w r"
    using assms(1)
  proof (induction rule: get_lazy_job_offers.raw_induct[rotated 1, consumes 1, case_names body])
    case (body f E p d w r)
    from body(2) have b: "lazy_body f E p d w = Some r" by (simp add: lazy_body_def)
    have "lazy_body get_lazy_job_offers E p d w = Some r"
      using lazy_body_mono[of f get_lazy_job_offers, OF _ b] body(1) by blast
    then have "get_lazy_job_offers E p d w = Some r" by (simp add: get_lazy_unfold[symmetric])
    moreover have "P E p d w r" using step[of f, OF _ b] body(1) by blast
    ultimately show ?case by simp
  qed
  then show ?thesis by simp
qed

lemma paging_loop_tags:
  assumes "paging_loop E p rng rng_d rng_end w = Some r"
  shows "\<forall>t \<in> set (yielded r). fst t = heap w ! p"
  using assms
proof (induction rule: paging_loop.raw_induct[rotated 1, consumes 1, case_names step])
  case (step loop E p rng rng_d rng_end w r)
  note IH = step(1) and body = step(2)
  show ?case
  proof (cases "rng_d < rng_end")
    case False
    with body show ?thesis by auto
  next
    case True
    note lt = this
    let ?rw = "session_get E (heap w ! p) w"
    show ?thesis
    proof (cases "status_code (fst ?rw) \<noteq> 200 \<and> status_code (fst ?rw) \<noteq> 206")
      case True
      with lt body
      have "loop E p rng (advance rng rng_d rng_end) rng_end
              (log_error (status_code (fst ?rw)) (snd ?rw)) = Some r"
        by (simp add: Let_def)
      from IH[OF this] show ?thesis by simp
    next
      case False
      show ?thesis
      proof (cases "chunk_of (fst ?rw)")
        case (Inl e)
        with False lt body show ?thesis by (auto simp: Let_def)
      next
        case (Inr c)
        with False lt body
        have "loop E p rng (advance rng rng_d rng_end) rng_end (snd ?rw)
                \<bind> (\<lambda>r'. Some (after_yield (heap w ! p, c) r')) = Some r"
          by (auto simp: Let_def)
        then obtain r' where r': "loop E p rng (advance rng rng_d rng_end) rng_end (snd ?rw) = Some r'"
          and r: "r = after_yield (heap w ! p, c) r'"
          unfolding bind_eq_Some_conv by auto
        from IH[OF r'] r show ?thesis by simp
      qed
    qed
  qed
qed

lemma walk_window_tags:
  assumes "walk_window E p w = Some r"
  shows "\<forall>t \<in> set (yielded r). fst t = heap w ! p"
proof -
  have loop: "\<forall>t \<in> set (yielded r'). fst t = heap w ! p"
    if "paging_loop E p rng rng_d rng_end (snd (session_get E (heap w ! p) w)) = Some r'"
    for rng rng_d rng_end r'
    using paging_loop_tags[OF that] by simp
  from assms show ?thesis
    unfolding walk_window_def Let_def
    by (auto split: if_splits sum.splits option.splits dest!: loop)
qed

lemma fold_published_absent:
  assumes "map_of (heap w ! p) ''publieeDepuis'' = None"
  shows "fold_published E p st w = (Inr st, w)"
  using assms by (simp add: fold_published_def)

lemma resolve_window_plain:
  assumes "window_of (heap w ! p) = Some (s, e)"
    and "map_of (heap w ! p) ''publieeDepuis'' = None"
    and "resolve_window E p d w = (Inr (sd, ed), w1)"
  shows "sd = s * 1000000 \<and> ed = e * 1000000 \<and> w1 = w"
proof -
  from window_of_keys[OF assms(1)]
  have mn: "map_of (heap w ! p) ''minCreationDate'' = Some (PStamp s)"
    and mx: "map_of (heap w ! p) ''maxCreationDate'' = Some (PStamp e)" by simp_all
  have sdo: "start_date_of E (heap w ! p) d w = (strptime (PStamp s), w)"
    using mn by (simp add: start_date_of_def)
  have edo: "end_date_of E (heap w ! p) w = (strptime (PStamp e), w)"
    using mx by (simp add: end_date_of_def)
  from assms(3) sdo edo fold_published_absent[OF assms(2)]
  obtain st where st: "strptime (PStamp s) = Inr st"
    and en: "strptime (PStamp e) = Inr ed" and "sd = st" "w1 = w"
    unfolding resolve_window_def by (auto split: sum.splits prod.splits)
  with strptime_Inr[OF st] strptime_Inr[OF en] show ?thesis by simp
qed

lemma mid_whole:
  "(s * 1000000 + half_even (e * 1000000 - s * 1000000)) div 1000000 = s + (e - s) div 2"
proof -
  have "e * 1000000 - s * 1000000 = 2 * (500000 * (e - s))" by simp
  then have "half_even (e * 1000000 - s * 1000000) = 500000 * (e - s)"
    by (simp only: half_even_double)
  then have "s * 1000000 + half_even (e * 1000000 - s * 1000000)
               = s * 1000000 + (e - s) * 500000" by simp
  then have "(s * 1000000 + half_even (e * 1000000 - s * 1000000)) div 1000000
               = s + ((e - s) * 500000) div 1000000" by simp
  also have "((e - s) * 500000) div 1000000 = (e - s) div 2"
    using div_mult_mult2[of "500000::int" "e - s" 2] by simp
  finally show ?thesis .
qed

lemma sorted_const:
  assumes "\<forall>t \<in> set xs. f t = (c::int)"
  shows "sorted (map f xs)"
  using assms by (induction xs) auto

lemma sorted_between:
  assumes "sorted (map f xs)" and "sorted (map f ys)"
    and "\<forall>t \<in> set xs. f t \<le> (m::int)" and "\<forall>t \<in> set ys. m \<le> f t"
  shows "sorted (map f (xs @ ys))"
  using assms by (force simp: sorted_append)

lemma window_start_tag: "fst t = q \<Longrightarrow> window_of q = Some (s, e) \<Longrightarrow> window_start t = s"
  by (simp add: window_start_def)

lemma stamped_sorted:
  assumes "get_lazy_job_offers E p d w = Some r"
  shows "\<forall>s e. window_of (heap w ! p) = Some (s, e) \<longrightarrow> s \<le> e + 1
           \<longrightarrow> map_of (heap w ! p) ''publieeDepuis'' = None
           \<longrightarrow> sorted (map window_start (yielded r))
               \<and> (\<forall>t \<in> set (yielded r). s \<le> window_start t \<and> window_start t \<le> e + 1)"
  using assms
proof (induction rule: get_lazy_induct)
  case (step f E p d w r)
  note IH = step(1) and body = step(2)
  show ?case
  proof (intro allI impI)
    fix s e
    assume win: "window_of (heap w ! p) = Some (s, e)" and se: "s \<le> e + 1"
      and nokey: "map_of (heap w ! p) ''publieeDepuis'' = None"
    let ?probed = "snd (get_nb_offers E p w)"
    have children:
      "window_of (heap w2 ! p1) = Some (s, s + (e - s) div 2)
       \<and> window_of (heap w2 ! p2) = Some (s + (e - s) div 2 + 1, e)
       \<and> map_of (heap w2 ! p1) ''publieeDepuis'' = None
       \<and> map_of (heap w2 ! p2) ''publieeDepuis'' = None"
      if sp: "split_params E p d ?probed = (Inr (p1, p2), w2)" for p1 p2 w2
    proof -
      from split_params_windows[OF sp] obtain sd ed w1 where
        rw: "resolve_window E p d ?probed = (Inr (sd, ed), w1)"
        and c1: "window_of (heap w2 ! p1)
                   = Some (sd div 1000000, (sd + half_even (ed - sd)) div 1000000)"
        and c2: "window_of (heap w2 ! p2)
                   = Some ((sd + half_even (ed - sd)) div 1000000 + 1, ed div 1000000)"
        and k1: "map_of (heap w2 ! p1) ''publieeDepuis'' = map_of (heap w1 ! p) ''publieeDepuis''"
        and k2: "map_of (heap w2 ! p2) ''publieeDepuis'' = map_of (heap w1 ! p) ''publieeDepuis''"
        by blast
      have "window_of (heap ?probed ! p) = Some (s, e)"
        "map_of (heap ?probed ! p) ''publieeDepuis'' = None"
        using win nokey by simp_all
      from resolve_window_plain[OF this rw]
      have "sd = s * 1000000" "ed = e * 1000000" "w1 = ?probed" by simp_all
      with c1 c2 k1 k2 nokey show ?thesis by (simp add: mid_whole)
    qed
    have m1: "s \<le> s + (e - s) div 2 + 1" and m2: "s + (e - s) div 2 \<le> e"
      using se by presburger+
    from body show "sorted (map window_start (yielded r))
               \<and> (\<forall>t \<in> set (yielded r). s \<le> window_start t \<and> window_start t \<le> e + 1)"
    proof (cases rule: lazy_body_cases)
      case (probe_error e)
      then show ?thesis by simp
    next
      case unknown
      then show ?thesis by simp
    next
      case (walk n)
      from walk_window_tags[OF walk(3)] have "\<forall>t \<in> set (yielded r). fst t = heap w ! p"
        by simp
      with win have "\<forall>t \<in> set (yielded r). window_start t = s"
        by (auto intro: window_start_tag)
      with sorted_const[of "yielded r" window_start s] se show ?thesis by simp
    next
      case (split_error n e)
      then show ?thesis by simp
    next
      case (left_raised n p1 p2 w2)
      from children[OF left_raised(3)] IH[OF left_raised(4)] m1 m2
      show ?thesis by fastforce
    next
      case (both n p1 p2 w2 r1 r2)
      from children[OF both(3)] have
        c1: "window_of (heap w2 ! p1) = Some (s, s + (e - s) div 2)"
        and c2: "window_of (heap w2 ! p2) = Some (s + (e - s) div 2 + 1, e)"
        and k1: "map_of (heap w2 ! p1) ''publieeDepuis'' = None"
        and k2: "map_of (heap w2 ! p2) ''publieeDepuis'' = None" by simp_all
      from IH[OF both(4)] have run1: "get_lazy_job_offers E p1 365 w2 = Some r1"
        and P1: "sorted (map window_start (yielded r1))
                 \<and> (\<forall>t \<in> set (yielded r1). s \<le> window_start t
                       \<and> window_start t \<le> s + (e - s) div 2 + 1)"
        using c1 k1 m1 by auto
      from second_child_kept[OF both(3) run1]
      have same: "heap (final r1) ! p2 = heap w2 ! p2" .
      from IH[OF both(6)] c2 k2 m2 same
      have P2: "sorted (map window_start (yielded r2))
                 \<and> (\<forall>t \<in> set (yielded r2). s + (e - s) div 2 + 1 \<le> window_start t
                       \<and> window_start t \<le> e + 1)"
        by auto
      have "sorted (map window_start (yielded r1 @ yielded r2))"
        using P1 P2 by (intro sorted_between[where m = "s + (e - s) div 2 + 1"]) auto
      with P1 P2 m1 m2 both(7) show ?thesis by fastforce
    qed
  qed
qed

lemma session_get_page: "\<exists>h. fst (session_get E q w) = server E (h @ [Get q])"
proof (cases "status_code (server E (sent w @ [Get q])) = 403")
  case True
  then have "fst (session_get E q w) = server E ((sent w @ [Get q]) @ [Get q])"
    by (simp add: session_get_def send_def Let_def)
  then show ?thesis by blast
next
  case False
  then have "fst (session_get E q w) = server E (sent w @ [Get q])"
    by (simp add: session_get_def send_def Let_def)
  then show ?thesis by blast
qed

lemma paging_loop_normal:
  assumes "paging_loop E p rng rng_d rng_end w = Some r"
  shows "well_formed_pages E \<longrightarrow> outcome r = None"
  using assms
proof (induction rule: paging_loop.raw_induct[rotated 1, consumes 1, case_names step])
  case (step loop E p rng rng_d rng_end w r)
  note IH = step(1) and body = step(2)
  show ?case
  proof
    assume wf: "well_formed_pages E"
    show "outcome r = None"
    proof (cases "rng_d < rng_end")
      case False
      with body show ?thesis by auto
    next
      case True
      note lt = this
      let ?rw = "session_get E (heap w ! p) w"
      show ?thesis
      proof (cases "status_code (fst ?rw) \<noteq> 200 \<and> status_code (fst ?rw) \<noteq> 206")
        case True
        with lt body
        have "loop E p rng (advance rng rng_d rng_end) rng_end
                (log_error (status_code (fst ?rw)) (snd ?rw)) = Some r"
          by (simp add: Let_def)
        from IH[OF this] wf show ?thesis by simp
      next
        case False
        with wf session_get_page[of E "heap w ! p" w]
        obtain c where c: "chunk_of (fst ?rw) = Inr c"
          unfolding well_formed_pages_def by metis
        with False lt body
        have "loop E p rng (advance rng rng_d rng_end) rng_end (snd ?rw)
                \<bind> (\<lambda>r'. Some (after_yield (heap w ! p, c) r')) = Some r"
          by (auto simp: Let_def)
        then obtain r' where r': "loop E p rng (advance rng rng_d rng_end) rng_end (snd ?rw) = Some r'"
          and r: "r = after_yield (heap w ! p, c) r'"
          unfolding bind_eq_Some_conv by auto
        from IH[OF r'] wf r show ?thesis by simp
      qed
    qed
  qed
qed

lemma walk_window_normal:
  assumes "well_formed_pages E" and "walk_window E p w = Some r"
  shows "outcome r = None"
proof -
  let ?r = "fst (session_get E (heap w ! p) w)"
  from session_get_page[of E "heap w ! p" w] obtain h where h: "?r = server E (h @ [Get (heap w ! p)])"
    by blast
  show ?thesis
  proof (cases "status_code ?r = 200")
    case True
    with assms(1) h obtain c where "chunk_of ?r = Inr c"
      unfolding well_formed_pages_def by metis
    with True assms(2) show ?thesis
      unfolding walk_window_def Let_def by auto
  next
    case False
    note n200 = this
    show ?thesis
    proof (cases "status_code ?r = 206")
      case False
      with n200 assms(2) show ?thesis
        unfolding walk_window_def Let_def by auto
    next
      case True
      with assms(1) h obtain c tot rng where "chunk_of ?r = Inr c"
        "content_range_total ?r = Inr tot" "accept_range ?r = Inr rng"
        unfolding well_formed_pages_def by metis
      with True n200 assms(2) obtain r' where
        "paging_loop E p rng (rng - 1) tot (snd (session_get E (heap w ! p) w)) = Some r'"
        "r = after_yield (heap w ! p, c) r'"
        unfolding walk_window_def Let_def by (auto split: option.splits)
      with paging_loop_normal[of E p rng "rng - 1" tot _ r'] assms(1) show ?thesis by simp
    qed
  qed
qed


section \<open>A page without the results field\<close>

text \<open>
  C1. The claim: when a page of status 200 (or 206) has no \<^verbatim>\<open>resultats\<close> field, the
  walker yields one empty chunk and completes. The code instead raises
  \<^verbatim>\<open>TypeError\<close> before yielding anything: the conditional sits inside the subscript,
  so the body is indexed by an empty list. Evaluated here for both status codes on a
  body \<^verbatim>\<open>{"filtresPossibles": []}\<close>.
\<close>

theorem C1_missing_resultats_raises:
  "observed (get_lazy_job_offers (no_results_env 200) 0 365 (start_world dept_42))
     = Some ([], Some TypeError)
   \<and> observed (get_lazy_job_offers (no_results_env 206) 0 365 (start_world dept_42))
     = Some ([], Some TypeError)"
  by code_simp

section \<open>A count probe without the range header\<close>

text \<open>
  C2. The claim: without the \<^verbatim>\<open>Content-Range\<close> header \<^verbatim>\<open>get_nb_offers\<close> returns
  \<^verbatim>\<open>None\<close> and the stream does not crash. The first half holds; the stream then
  compares \<^verbatim>\<open>None\<close> with 3000 and raises \<^verbatim>\<open>TypeError\<close>, having sent the probe and
  nothing else.
\<close>

theorem C2_unknown_count_raises:
  "fst (get_nb_offers no_range_env 0 (start_world dept_42)) = Inr None
   \<and> observed (get_lazy_job_offers no_range_env 0 365 (start_world dept_42))
     = Some ([], Some TypeError)
   \<and> map_option (\<lambda>r. sent (final r))
        (get_lazy_job_offers no_range_env 0 365 (start_world dept_42))
     = Some [Head dept_42]"
  by code_simp

section \<open>The two halves of a window\<close>

text \<open>
  C3. When a call splits the window it resolved, \<open>[start_date, end_date]\<close> with
  \<open>start_date \<le> end_date\<close>, the children carry the windows \<open>[start, mid]\<close> and
  \<open>[mid + 1, end]\<close> in whole seconds, where \<open>mid\<close> is the pivot
  \<open>start_date + (end_date - start_date) / 2\<close> as \<^verbatim>\<open>strftime\<close> prints it; the two
  sets of seconds are disjoint and their union is the set of seconds of the window. When
  both bounds are whole seconds (as parsed timestamps are), \<open>mid\<close> is
  \<open>start + (end - start) div 2\<close>.
\<close>

theorem C3_children_partition:
  assumes "resolve_window E p d w = (Inr (start_date, end_date), w1)"
    and "split_params E p d w = (Inr (p1, p2), w')"
    and "start_date \<le> end_date"
  shows "\<exists>mid.
           mid = (start_date + half_even (end_date - start_date)) div 1000000
         \<and> window_of (heap w' ! p1) = Some (start_date div 1000000, mid)
         \<and> window_of (heap w' ! p2) = Some (mid + 1, end_date div 1000000)
         \<and> {start_date div 1000000 .. mid} \<inter> {mid + 1 .. end_date div 1000000} = {}
         \<and> {start_date div 1000000 .. mid} \<union> {mid + 1 .. end_date div 1000000}
             = {start_date div 1000000 .. end_date div 1000000}
         \<and> (start_date mod 1000000 = 0 \<and> end_date mod 1000000 = 0 \<longrightarrow>
              mid = start_date div 1000000
                    + (end_date div 1000000 - start_date div 1000000) div 2)"
proof -
  let ?m = "start_date + half_even (end_date - start_date)"
  from split_params_dicts[OF assms(2)] assms(1) obtain mid where
    mid: "dt_check ?m = Inr mid"
    and d1: "heap w' ! p1 = AList.update ''maxCreationDate'' (strftime mid)
                    (AList.update ''minCreationDate'' (strftime start_date) (heap w1 ! p))"
    and d2: "heap w' ! p2 = AList.update ''maxCreationDate'' (strftime end_date)
                    (AList.update ''minCreationDate'' (strftime (mid + 1000000)) (heap w1 ! p))"
    by auto
  from dt_check_Inr[OF mid] have mid_eq: "mid = ?m" .
  from assms(3) half_even_nonneg[of "end_date - start_date"]
  have bounds: "start_date \<le> ?m" "?m \<le> end_date" by auto
  then have lo: "start_date div 1000000 \<le> ?m div 1000000"
    and hi: "?m div 1000000 \<le> end_date div 1000000"
    by (auto intro: zdiv_mono1)
  have w1: "window_of (heap w' ! p1) = Some (start_date div 1000000, ?m div 1000000)"
    using d1 mid_eq by simp
  have "(?m + 1000000) div 1000000 = ?m div 1000000 + 1" by simp
  then have w2: "window_of (heap w' ! p2) = Some (?m div 1000000 + 1, end_date div 1000000)"
    using d2 mid_eq by simp
  have whole: "?m div 1000000 = start_date div 1000000
                    + (end_date div 1000000 - start_date div 1000000) div 2"
    if "start_date mod 1000000 = 0" "end_date mod 1000000 = 0"
  proof -
    from that have "1000000 dvd start_date" "1000000 dvd end_date"
      by (simp_all add: dvd_eq_mod_eq_0)
    then obtain a b where a: "start_date = 1000000 * a" and b: "end_date = 1000000 * b"
      by (auto elim!: dvdE)
    have "end_date - start_date = 2 * (500000 * (b - a))" using a b by simp
    then have "half_even (end_date - start_date) = 500000 * (b - a)"
      by (simp only: half_even_double)
    then have "?m = a * 1000000 + (b - a) * 500000" using a by simp
    then have "?m div 1000000 = a + ((b - a) * 500000) div 1000000"
      by simp
    also have "((b - a) * 500000) div 1000000 = (b - a) div 2"
      using div_mult_mult2[of "500000::int" "b - a" 2] by simp
    finally show ?thesis using a b by simp
  qed
  from lo hi w1 w2 whole show ?thesis
    by (intro exI[of _ "?m div 1000000"]) auto
qed

theorem C3_children_partition_witness:
  "window_of (heap (snd (split_params split_once_env 0 365 (start_world window_42))) ! 1)
     = Some (63799136000, 63799568000)
   \<and> window_of (heap (snd (split_params split_once_env 0 365 (start_world window_42))) ! 2)
     = Some (63799568001, 63800000000)
   \<and> {63799136000 .. 63799568000} \<union> {63799568001 .. 63800000000}
     = {63799136000 .. 63800000000 :: int}"
proof -
  let ?w = "start_world window_42"
  have rw: "resolve_window split_once_env 0 365 ?w
              = (Inr (63799136000000000, 63800000000000000), ?w)"
    by code_simp
  have "fst (split_params split_once_env 0 365 ?w) = Inr (1, 2)"
    by code_simp
  then have sp: "split_params split_once_env 0 365 ?w
              = (Inr (1, 2), snd (split_params split_once_env 0 365 ?w))"
    by (metis prod.collapse)
  have le: "(63799136000000000::int) \<le> 63800000000000000" by simp
  from C3_children_partition[OF rw sp le] show ?thesis
    by (simp add: half_even_def)
qed

section \<open>Splitting at the ceiling\<close>



section \<open>The paging loop\<close>

text \<open>
  C5. On a first page of status 206 granting a page size \<open>rng > 0\<close> out of \<open>tot\<close>
  results, from a server that never answers 403 and whose good pages carry results, the
  walk is the first chunk followed by the loop started at \<open>rng - 1\<close>; the loop advances
  by \<open>rng\<close> capped at \<open>tot\<close> while it is below \<open>tot\<close> (\<open>iterations\<close>), which makes
  \<open>tot div rng\<close> passes. The walk ends normally, sends one GET for the first page and
  one per pass, all with the same params, and yields one chunk per fetch answered with
  200 or 206. For \<open>tot = 320\<close> and \<open>rng = 100\<close> that is 4 fetches.
\<close>

theorem C5_paging_arithmetic:
  assumes "dependable E"
    and "session_get E (heap w ! p) w = (r, w1)"
    and "status_code r = 206"
    and "content_range_total r = Inr tot"
    and "accept_range r = Inr rng"
    and "0 < rng"
  shows "\<exists>c run.
           chunk_of r = Inr c
         \<and> walk_window E p w
             = paging_loop E p rng (rng - 1) tot w1
                 \<bind> (\<lambda>r'. Some (after_yield (heap w ! p, c) r'))
         \<and> walk_window E p w = Some run
         \<and> outcome run = None
         \<and> sent (final run)
             = sent w @ replicate (Suc (iterations rng (rng - 1) tot)) (Get (heap w ! p))
         \<and> fetches (final run) = fetches w + 1 + iterations rng (rng - 1) tot
         \<and> length (yielded run)
             = successes E (sent w)
                 (replicate (Suc (iterations rng (rng - 1) tot)) (Get (heap w ! p)))
         \<and> iterations rng (rng - 1) tot = nat (tot div rng)
         \<and> (tot = 320 \<and> rng = 100 \<longrightarrow> fetches (final run) = fetches w + 4)"
proof -
  let ?q = "heap w ! p"
  from session_get_dependable[OF assms(1), of ?q w] assms(2)
  have r: "r = server E (sent w @ [Get ?q])" and w1: "w1 = w\<lparr>sent := sent w @ [Get ?q]\<rparr>"
    by simp_all
  from assms(1,3) r obtain c where c: "chunk_of r = Inr c"
    unfolding dependable_def by blast
  have walk: "walk_window E p w
             = paging_loop E p rng (rng - 1) tot w1
                 \<bind> (\<lambda>r'. Some (after_yield (?q, c) r'))"
    using assms(2-5) c
    by (auto simp: walk_window_def Let_def split: option.splits)
  from paging_loop_count[OF assms(1,6), of p "rng - 1" tot w1] w1
  obtain r' where r': "paging_loop E p rng (rng - 1) tot w1 = Some r'"
    "outcome r' = None"
    "sent (final r') = (sent w @ [Get ?q]) @ replicate (iterations rng (rng - 1) tot) (Get ?q)"
    "length (yielded r') = successes E (sent w @ [Get ?q])
                             (replicate (iterations rng (rng - 1) tot) (Get ?q))"
    by auto
  let ?run = "after_yield (?q, c) r'"
  have run: "walk_window E p w = Some ?run" using walk r'(1) by simp
  have sent: "sent (final ?run)
             = sent w @ replicate (Suc (iterations rng (rng - 1) tot)) (Get ?q)"
    using r'(3) by simp
  have fet: "fetches (final ?run) = fetches w + 1 + iterations rng (rng - 1) tot"
    unfolding fetches_def sent by (simp add: is_get_def)
  have len: "length (yielded ?run)
             = successes E (sent w)
                 (replicate (Suc (iterations rng (rng - 1) tot)) (Get ?q))"
    using r'(4) assms(3) r by simp
  have closed: "iterations rng (rng - 1) tot = nat (tot div rng)"
    using iterations_closed[OF assms(6)] .
  have four: "tot = 320 \<and> rng = 100 \<longrightarrow> fetches (final ?run) = fetches w + 4"
    using fet closed by auto
  from c walk run r'(2) sent fet len closed four show ?thesis
    by (intro exI[of _ c] exI[of _ ?run]) simp
qed

theorem C5_paging_arithmetic_witness:
  "map_option (\<lambda>run. (fetches (final run), length (yielded run), outcome run))
     (walk_window paged_env 0 (snd (get_nb_offers paged_env 0 (start_world dept_42))))
     = Some (4, 4, None)"
proof -
  let ?w = "snd (get_nb_offers paged_env 0 (start_world dept_42))"
  let ?sg = "session_get paged_env (heap ?w ! 0) ?w"
  have sg: "?sg = (fst ?sg, snd ?sg)" by simp
  have st: "status_code (fst ?sg) = 206" by code_simp
  have cr: "content_range_total (fst ?sg) = Inr 320" by code_simp
  have ar: "accept_range (fst ?sg) = Inr 100" by code_simp
  have pos: "(0::int) < 100" by simp
  have f0: "fetches ?w = 0" by code_simp
  have succ: "successes paged_env (sent ?w) (replicate 4 (Get (heap ?w ! 0))) = 4"
    by code_simp
  from C5_paging_arithmetic[OF dependable_paged sg st cr ar pos]
  obtain run where run: "walk_window paged_env 0 ?w = Some run"
    and out: "outcome run = None"
    and fet: "fetches (final run) = fetches ?w + 1 + iterations 100 (100 - 1) 320"
    and len: "length (yielded run)
             = successes paged_env (sent ?w)
                 (replicate (Suc (iterations 100 (100 - 1) 320)) (Get (heap ?w ! 0)))"
    and it: "iterations 100 (100 - 1) 320 = nat (320 div 100)"
    by blast
  from it have "iterations 100 (100 - 1) 320 = 3" by simp
  with run out fet len f0 succ show ?thesis
    by (simp add: eval_nat_numeral)
qed

section \<open>Folding publieeDepuis into the window\<close>

text \<open>
  C6, the counterexample. The claim says the key \<^verbatim>\<open>publieeDepuis\<close> is absent from both
  children of every split. With \<^verbatim>\<open>publieeDepuis = "30"\<close> and a \<^verbatim>\<open>minCreationDate\<close> ten
  days back, the start is not older than thirty days ago, the guard of line 184 is false,
  the key is not deleted, and both children (and every request sent for them) carry it.
\<close>

theorem C6_published_since_kept:
  "map_of month_window_42 ''publieeDepuis'' = Some (PStr ''30'')
   \<and> map_option (\<lambda>r. map (\<lambda>q. map_of q ''publieeDepuis'') (heap (final r)))
        (get_lazy_job_offers split_once_env 0 365 (start_world month_window_42))
     = Some [Some (PStr ''30''), Some (PStr ''30''), Some (PStr ''30'')]
   \<and> map_option (\<lambda>r. map (key_of_request ''publieeDepuis'') (sent (final r)))
        (get_lazy_job_offers split_once_env 0 365 (start_world month_window_42))
     = Some [Some (PStr ''30''), Some (PStr ''30''), Some (PStr ''30''),
             Some (PStr ''30''), Some (PStr ''30'')]"
  by code_simp

text \<open>
  C6, as amended. In a splitting call whose params hold \<^verbatim>\<open>publieeDepuis = N\<close>, the start
  of the window that is split is the later of the resolved start and the clock reading
  minus \<open>N\<close> days, and it is the \<^verbatim>\<open>minCreationDate\<close> of the left child. The key is absent
  from both children when the resolved start is strictly older than that cutoff, and
  kept in both otherwise.
\<close>

theorem C6_published_since_folding:
  assumes "map_of (heap w ! p) ''publieeDepuis'' = Some v"
    and "split_params E p d w = (Inr (p1, p2), w')"
    and "p < length (heap w)"
  shows "\<exists>start w1 end_date w2 N cutoff.
           start_date_of E (heap w ! p) d w = (Inr start, w1)
         \<and> end_date_of E (heap w ! p) w1 = (Inr end_date, w2)
         \<and> py_int v = Inr N
         \<and> cutoff = now E (reads w2) - N * 86400000000
         \<and> fst (resolve_window E p d w) = Inr (max start cutoff, end_date)
         \<and> map_of (heap w' ! p1) ''minCreationDate'' = Some (strftime (max start cutoff))
         \<and> (start < cutoff \<longrightarrow>
               map_of (heap w' ! p1) ''publieeDepuis'' = None
             \<and> map_of (heap w' ! p2) ''publieeDepuis'' = None)
         \<and> (cutoff \<le> start \<longrightarrow>
               map_of (heap w' ! p1) ''publieeDepuis'' = Some v
             \<and> map_of (heap w' ! p2) ''publieeDepuis'' = Some v)"
proof -
  from split_params_dicts[OF assms(2)] obtain sd ed w3 mid where
    rw: "resolve_window E p d w = (Inr (sd, ed), w3)"
    and d1: "heap w' ! p1 = AList.update ''maxCreationDate'' (strftime mid)
                    (AList.update ''minCreationDate'' (strftime sd) (heap w3 ! p))"
    and d2: "heap w' ! p2 = AList.update ''maxCreationDate'' (strftime ed)
                    (AList.update ''minCreationDate'' (strftime (mid + 1000000)) (heap w3 ! p))"
    by blast
  obtain rs w1 where sdo: "start_date_of E (heap w ! p) d w = (rs, w1)"
    by (cases "start_date_of E (heap w ! p) d w")
  have h1: "heap w1 = heap w" using start_date_of_heap[of E "heap w ! p" d w] sdo by simp
  obtain re w2 where edo: "end_date_of E (heap w ! p) w1 = (re, w2)"
    by (cases "end_date_of E (heap w ! p) w1")
  have h2: "heap w2 = heap w" using end_date_of_heap[of E "heap w ! p" w1] edo h1 by simp
  from rw sdo edo h1 obtain start end_date where rs: "rs = Inr start" and re: "re = Inr end_date"
    and fp: "fold_published E p start w2 = (Inr sd, w3)" and ed: "ed = end_date"
    unfolding resolve_window_def by (auto split: sum.splits prod.splits)
  from fold_published_Inr[OF fp] assms(1,3) h2 obtain N where
    N: "py_int v = Inr N" and sd: "sd = max start (now E (reads w2) - N * 86400000000)"
    and del: "start < now E (reads w2) - N * 86400000000 \<Longrightarrow>
                heap w3 ! p = AList.delete ''publieeDepuis'' (heap w ! p)"
    and keep: "now E (reads w2) - N * 86400000000 \<le> start \<Longrightarrow> heap w3 ! p = heap w ! p"
    by auto
  show ?thesis
    apply (rule exI[of _ start], rule exI[of _ w1], rule exI[of _ end_date], rule exI[of _ w2],
           rule exI[of _ N], rule exI[of _ "now E (reads w2) - N * 86400000000"])
    using sdo edo rs re N rw sd ed d1 d2 del keep assms(1)
    by (auto simp del: max.absorb1 max.absorb2 max.absorb3 max.absorb4)
qed

theorem C6_published_since_folding_witness:
  "fst (resolve_window split_once_env 0 365 (start_world recent_42))
     = Inr (63799136000000002, 63800000000000001)
   \<and> map_of (heap (snd (split_params split_once_env 0 365 (start_world recent_42))) ! 1)
        ''publieeDepuis'' = None
   \<and> map_of (heap (snd (split_params split_once_env 0 365 (start_world recent_42))) ! 2)
        ''publieeDepuis'' = None"
proof -
  let ?w = "start_world recent_42"
  have key: "map_of (heap ?w ! 0) ''publieeDepuis'' = Some (PStr ''10'')"
    by code_simp
  have "fst (split_params split_once_env 0 365 ?w) = Inr (1, 2)"
    by code_simp
  then have sp: "split_params split_once_env 0 365 ?w
              = (Inr (1, 2), snd (split_params split_once_env 0 365 ?w))"
    by (metis prod.collapse)
  have len: "0 < length (heap ?w)" by (simp add: start_world_def)
  have ev: "fst (resolve_window split_once_env 0 365 (start_world recent_42))
     = Inr (63799136000000002, 63800000000000001)" by code_simp
  from C6_published_since_folding[OF key sp len] obtain start end_date cutoff where
    r: "fst (resolve_window split_once_env 0 365 ?w) = Inr (max start cutoff, end_date)"
    and a: "start < cutoff \<longrightarrow>
               map_of (heap (snd (split_params split_once_env 0 365 ?w)) ! 1) ''publieeDepuis'' = None
             \<and> map_of (heap (snd (split_params split_once_env 0 365 ?w)) ! 2) ''publieeDepuis'' = None"
    and b: "cutoff \<le> start \<longrightarrow>
               map_of (heap (snd (split_params split_once_env 0 365 ?w)) ! 1) ''publieeDepuis''
                 = Some (PStr ''10'')"
    by blast
  have "map_of (heap (snd (split_params split_once_env 0 365 ?w)) ! 1) ''publieeDepuis'' = None"
    by code_simp
  with b have "start < cutoff" by auto
  with a ev show ?thesis by simp
qed

section \<open>Pages and windows that fail\<close>



section \<open>The order of the stream\<close>




section \<open>Termination\<close>

text \<open>
  C9, the counterexample. The claim constrains the count oracle only. A server that
  reports 5 offers to every probe satisfies it, and when its first page of status 206
  grants \<^verbatim>\<open>Accept-Range: 0\<close> the loop of lines 215 to 226 never advances: the walk, and
  with it the traversal, does not return.
\<close>

theorem C9_zero_page_size_diverges:
  "shrinking_counts zero_page_env
   \<and> get_lazy_job_offers zero_page_env 0 365 (start_world dept_42) = None"
proof -
  let ?w = "start_world dept_42"
  let ?w1 = "snd (get_nb_offers zero_page_env 0 ?w)"
  let ?sg = "session_get zero_page_env (heap ?w1 ! 0) ?w1"
  have probe: "fst (get_nb_offers zero_page_env 0 ?w) = Inr (Some 5)" by code_simp
  have lt: "(5::int) < MAX_RANGE" by (simp add: MAX_RANGE_def)
  have st: "status_code (fst ?sg) = 206" by code_simp
  have ch: "chunk_of (fst ?sg) = Inr (JArr [])" by code_simp
  have cr: "content_range_total (fst ?sg) = Inr 5" by code_simp
  have ar: "accept_range (fst ?sg) = Inr 0" by code_simp
  have "paging_loop zero_page_env 0 0 (- 1) 5 (snd ?sg) = None"
    using zero_page_loop[of zero_page_env 0 0 "- 1" 5 "snd ?sg"] by (cases "paging_loop zero_page_env 0 0 (- 1) 5 (snd ?sg)") auto
  with st ch cr ar have "walk_window zero_page_env 0 ?w1 = None"
    by (simp add: walk_window_def Let_def)
  with get_lazy_below[OF probe lt, of 365] shrinking_zero_page show ?thesis by simp
qed

text \<open>
  C9, as amended. When every probe that reports 3000 or more is for a window that a split
  strictly reduces, and every page of status 206 grants a positive page size, the
  traversal returns (normally or with an exception) for every query, clock and starting
  state; the chunks it has yielded form a list.
\<close>

theorem C9_termination:
  assumes "shrinking_counts E" and "positive_pages E"
  shows "\<exists>r. get_lazy_job_offers E p d w = Some r"
proof -
  let ?nw = "get_nb_offers E p w"
  have "get_lazy_job_offers E p d w \<noteq> None"
  proof (cases "fst ?nw")
    case (Inl err)
    then show ?thesis by (subst get_lazy_job_offers.simps) (simp add: Let_def)
  next
    case (Inr nb)
    show ?thesis
    proof (cases nb)
      case None
      with Inr show ?thesis by (subst get_lazy_job_offers.simps) (simp add: Let_def)
    next
      case (Some n)
      with Inr have probe: "fst ?nw = Inr (Some n)" by simp
      show ?thesis
      proof (cases "n < MAX_RANGE")
        case True
        with get_lazy_below[OF probe True] walk_window_terminates[OF assms(2)]
        show ?thesis by simp
      next
        case False
        then have ge: "MAX_RANGE \<le> n" by simp
        let ?sw = "split_params E p d (snd ?nw)"
        show ?thesis
        proof (cases "fst ?sw")
          case (Inl err)
          with probe ge show ?thesis
            by (subst get_lazy_job_offers.simps) (simp add: Let_def)
        next
          case (Inr ps)
          obtain p1 p2 where ps: "ps = (p1, p2)" by (cases ps)
          with Inr have sp: "?sw = (Inr (p1, p2), snd ?sw)" by (metis prod.collapse)
          let ?w2 = "snd ?sw"
          from split_params_windows[OF sp] obtain a b c e where
            c1: "window_of (heap ?w2 ! p1) = Some (a, b)"
            and c2: "window_of (heap ?w2 ! p2) = Some (c, e)"
            by blast
          from stamped_terminates[OF assms c1] obtain r1 where
            r1: "get_lazy_job_offers E p1 365 ?w2 = Some r1" by blast
          from second_child_kept[OF sp r1] c2
          have "window_of (heap (final r1) ! p2) = Some (c, e)" by simp
          from stamped_terminates[OF assms this] obtain r2 where
            "get_lazy_job_offers E p2 365 (final r1) = Some r2" by blast
          with get_lazy_split[OF probe ge sp] r1 show ?thesis
            by (cases "outcome r1 = None") simp_all
        qed
      qed
    qed
  qed
  then show ?thesis by blast
qed

theorem C9_termination_witness:
  "observed (get_lazy_job_offers dense_env 0 365 (start_world ten_seconds))
     = Some ([JArr [JNum 63800000000], JArr [JNum 63800000003], JArr [JNum 63800000006],
              JArr [JNum 63800000009]], None)"
proof -
  from C9_termination[OF shrinking_dense positive_dense, of 0 365 "start_world ten_seconds"]
  obtain r where r: "get_lazy_job_offers dense_env 0 365 (start_world ten_seconds) = Some r"
    by blast
  have "observed (get_lazy_job_offers dense_env 0 365 (start_world ten_seconds))
     = Some ([JArr [JNum 63800000000], JArr [JNum 63800000003], JArr [JNum 63800000006],
              JArr [JNum 63800000009]], None)"
    by code_simp
  with r show ?thesis by simp
qed

section \<open>The caller's params and the copies\<close>




end
